theory Spec2Isabelle
  imports Main
begin

section \<open>Run Away from Cats: the game field\<close>

text \<open>
  A shallow embedding of \<^verbatim>\<open>src/run_from_cats/__init__.py\<close>: the classes
  \<^verbatim>\<open>Position\<close> and \<^verbatim>\<open>GameField\<close> and the turn branch of
  \<^verbatim>\<open>Bot.proceed_message\<close>.

  Python integers are \<open>int\<close>. The four cell symbols are four pairwise different string
  constants of the source and nothing else is ever stored in a cell, so they are the four
  constructors of a datatype. The field is a list of rows of \<^verbatim>\<open>Position\<close> objects;
  the methods mutate it in place, the model returns the new field.
\<close>

subsection \<open>Constants\<close>

definition FIELD_SIZE :: int where
  "FIELD_SIZE = 5"

definition MIDDLE_POS :: int where
  "MIDDLE_POS = (FIELD_SIZE - 1) div 2"

datatype symbol = PLAYER_SYMBOL | CAT_SYMBOL | OBSTACLE_SYMBOL | EMPTY_SYMBOL

definition DIRECTIONS :: "string \<rightharpoonup> string" where
  "DIRECTIONS = [''left'' \<mapsto> ''right'', ''right'' \<mapsto> ''left'',
                 ''up'' \<mapsto> ''down'', ''down'' \<mapsto> ''up'']"

definition POSITIONS_TO_CHECK_CATS :: "(int \<times> int) list" where
  "POSITIONS_TO_CHECK_CATS =
     [(MIDDLE_POS, MIDDLE_POS - 1),
      (MIDDLE_POS, MIDDLE_POS + 1),
      (MIDDLE_POS - 1, MIDDLE_POS),
      (MIDDLE_POS + 1, MIDDLE_POS)]"

text \<open>\<^verbatim>\<open>range(n)\<close> and \<^verbatim>\<open>range(hi, lo, -1)\<close>.\<close>

definition py_range :: "int \<Rightarrow> int list" where
  "py_range n = [0..n - 1]"

definition py_range_down :: "int \<Rightarrow> int \<Rightarrow> int list" where
  "py_range_down hi lo = rev [lo + 1..hi]"

subsection \<open>The random source\<close>

text \<open>
  The module \<^verbatim>\<open>random\<close> is a stream of draws. The model reads them from a list of
  natural numbers, one per call; \<^verbatim>\<open>randint(a, b)\<close> maps a draw into \<open>a..b\<close> and
  \<^verbatim>\<open>random.choice(seq)\<close> maps it to an index of \<open>seq\<close>. A call on the empty list
  has no draw to read and gives \<open>None\<close>: an operation that returns \<open>None\<close> did not
  finish within the draws it was given.
\<close>

type_synonym rng = "nat list"

fun randint :: "int \<Rightarrow> int \<Rightarrow> rng \<Rightarrow> (int \<times> rng) option" where
  "randint a b [] = None"
| "randint a b (r # rs) = Some (a + int r mod (b - a + 1), rs)"

fun choice_index :: "nat \<Rightarrow> rng \<Rightarrow> (nat \<times> rng) option" where
  "choice_index n [] = None"
| "choice_index n (r # rs) = Some (r mod n, rs)"

definition choice :: "'a list \<Rightarrow> rng \<Rightarrow> ('a \<times> rng) option" where
  "choice xs rng =
     (case choice_index (length xs) rng of
        None \<Rightarrow> None
      | Some (i, rng') \<Rightarrow> Some (xs ! i, rng'))"

subsection \<open>Position\<close>

record position =
  x_coord :: int
  y_coord :: int
  data :: symbol

definition Position :: "int \<Rightarrow> int \<Rightarrow> symbol \<Rightarrow> position" where
  "Position x y d = \<lparr>x_coord = x, y_coord = y, data = d\<rparr>"

text \<open>\<^verbatim>\<open>Position.manhattan\<close>, called with a coordinate pair.\<close>

definition manhattan :: "position \<Rightarrow> int \<times> int \<Rightarrow> int" where
  "manhattan self other_position =
     \<bar>x_coord self - fst other_position\<bar> + \<bar>y_coord self - snd other_position\<bar>"

subsection \<open>GameField\<close>

type_synonym field = "position list list"

text \<open>
  \<^verbatim>\<open>self[x][y]\<close>. Every subscript of the modelled code is a literal in
  \<open>0..FIELD_SIZE - 1\<close>, a result of \<^verbatim>\<open>randint(0, FIELD_SIZE - 1)\<close>, a loop index or
  a coordinate that has passed the bounds test of \<^verbatim>\<open>move_cat\<close>; on a field of
  \<open>FIELD_SIZE\<close> rows and columns no subscript is negative or raises.
\<close>

definition cell :: "field \<Rightarrow> int \<Rightarrow> int \<Rightarrow> position" where
  "cell fd x y = fd ! nat x ! nat y"

text \<open>\<^verbatim>\<open>self[x][y].data = s\<close>\<close>

definition set_data :: "field \<Rightarrow> int \<Rightarrow> int \<Rightarrow> symbol \<Rightarrow> field" where
  "set_data fd x y s = fd[nat x := (fd ! nat x)[nat y := (cell fd x y)\<lparr>data := s\<rparr>]]"

text \<open>\<^verbatim>\<open>for col in cols: row[col] = f(row[col])\<close>, the inner loops of the shifts.\<close>

definition update_cols :: "(position \<Rightarrow> position) \<Rightarrow> int list \<Rightarrow> position list \<Rightarrow> position list" where
  "update_cols f cols row = foldl (\<lambda>r col. r[nat col := f (r ! nat col)]) row cols"

fun generate_row_obstacles :: "nat \<Rightarrow> position list \<Rightarrow> rng \<Rightarrow> (position list \<times> rng) option" where
  "generate_row_obstacles 0 result rng = Some (result, rng)"
| "generate_row_obstacles (Suc n) result rng =
     (case choice_index (length result) rng of
        None \<Rightarrow> None
      | Some (i, rng') \<Rightarrow>
          generate_row_obstacles n (result[i := (result ! i)\<lparr>data := OBSTACLE_SYMBOL\<rparr>]) rng')"

definition generate_row :: "int \<Rightarrow> rng \<Rightarrow> (position list \<times> rng) option" where
  "generate_row row_index rng =
     generate_row_obstacles (nat (FIELD_SIZE div 3))
       (map (\<lambda>col. Position row_index col EMPTY_SYMBOL) (py_range FIELD_SIZE)) rng"

definition generate_clear :: field where
  "generate_clear =
     (let result = map (\<lambda>row. map (\<lambda>col. Position row col EMPTY_SYMBOL) (py_range FIELD_SIZE))
                       (py_range FIELD_SIZE)
      in set_data result MIDDLE_POS MIDDLE_POS PLAYER_SYMBOL)"

lemma randint_shorter: "randint a b rng = Some (v, rng') \<Longrightarrow> length rng' < length rng"
  by (cases rng) auto

lemma choice_index_shorter: "choice_index n rng = Some (i, rng') \<Longrightarrow> length rng' < length rng"
  by (cases rng) auto

lemma choice_shorter: "choice xs rng = Some (v, rng') \<Longrightarrow> length rng' < length rng"
  by (auto simp: choice_def split: option.splits dest: choice_index_shorter)

text \<open>
  The \<^verbatim>\<open>while\<close> loop of \<^verbatim>\<open>generate_cats\<close>; each round reads two draws, and
  both \<^verbatim>\<open>continue\<close> branches start the next round with the counter unchanged.
\<close>

function generate_cats_loop :: "nat \<Rightarrow> nat \<Rightarrow> field \<Rightarrow> rng \<Rightarrow> (field \<times> rng) option" where
  "generate_cats_loop cats_generated number fd rng =
     (if cats_generated < number then
        (case randint 0 (FIELD_SIZE - 1) rng of
           None \<Rightarrow> None
         | Some (random_coordinate, rng1) \<Rightarrow>
             (case choice [(0, random_coordinate),
                           (FIELD_SIZE - 1, random_coordinate),
                           (random_coordinate, 0),
                           (random_coordinate, FIELD_SIZE - 1)] rng1 of
                None \<Rightarrow> None
              | Some (new_cat_position, rng2) \<Rightarrow>
                  (if data (cell fd (fst new_cat_position) (snd new_cat_position)) \<noteq> EMPTY_SYMBOL
                   then generate_cats_loop cats_generated number fd rng2
                   else if manhattan (cell fd MIDDLE_POS MIDDLE_POS) new_cat_position < 2
                   then generate_cats_loop cats_generated number fd rng2
                   else generate_cats_loop (cats_generated + 1) number
                          (set_data fd (fst new_cat_position) (snd new_cat_position) CAT_SYMBOL)
                          rng2)))
      else Some (fd, rng))"
  by pat_completeness auto
termination
  by (relation "measure (\<lambda>(g, n, fd, rng). length rng)")
     (auto dest!: randint_shorter choice_shorter)

declare generate_cats_loop.simps [simp del]

definition generate_cats :: "nat \<Rightarrow> field \<Rightarrow> rng \<Rightarrow> (field \<times> rng) option" where
  "generate_cats number fd rng = generate_cats_loop 0 number fd rng"

text \<open>The \<^verbatim>\<open>while\<close> loop of \<^verbatim>\<open>generate_obstacles\<close>.\<close>

function generate_obstacles_loop :: "nat \<Rightarrow> nat \<Rightarrow> field \<Rightarrow> rng \<Rightarrow> (field \<times> rng) option" where
  "generate_obstacles_loop obstacles_generated obstacles_number fd rng =
     (if obstacles_generated < obstacles_number then
        (case randint 0 (FIELD_SIZE - 1) rng of
           None \<Rightarrow> None
         | Some (x, rng1) \<Rightarrow>
             (case randint 0 (FIELD_SIZE - 1) rng1 of
                None \<Rightarrow> None
              | Some (y, rng2) \<Rightarrow>
                  (if data (cell fd x y) \<noteq> EMPTY_SYMBOL
                   then generate_obstacles_loop obstacles_generated obstacles_number fd rng2
                   else generate_obstacles_loop (obstacles_generated + 1) obstacles_number
                          (set_data fd x y OBSTACLE_SYMBOL) rng2)))
      else Some (fd, rng))"
  by pat_completeness auto
termination
  by (relation "measure (\<lambda>(g, n, fd, rng). length rng)")
     (auto dest!: randint_shorter)

declare generate_obstacles_loop.simps [simp del]

definition generate_obstacles :: "nat \<Rightarrow> field \<Rightarrow> rng \<Rightarrow> (field \<times> rng) option" where
  "generate_obstacles obstacles_number fd rng = generate_obstacles_loop 0 obstacles_number fd rng"

text \<open>\<^verbatim>\<open>GameField.__init__\<close>: the default arguments are one cat and three obstacles.\<close>

definition GameField :: "rng \<Rightarrow> (field \<times> rng) option" where
  "GameField rng =
     (case generate_cats 1 generate_clear rng of
        None \<Rightarrow> None
      | Some (fd, rng') \<Rightarrow> generate_obstacles 3 fd rng')"

subsection \<open>Shifting the field\<close>

text \<open>
  The body of the \<^verbatim>\<open>'left'\<close> case: each row loses its first cell, gets a new empty
  cell with column \<open>FIELD_SIZE\<close> at its end, and then every cell of the row has its
  column decremented.
\<close>

definition shift_left :: "field \<Rightarrow> field" where
  "shift_left fd =
     foldl (\<lambda>fd row.
              let new_row = drop 1 (fd ! nat row) @ [Position row FIELD_SIZE EMPTY_SYMBOL]
              in fd[nat row := update_cols (\<lambda>p. p\<lparr>y_coord := y_coord p - 1\<rparr>)
                                 (py_range FIELD_SIZE) new_row])
           fd (py_range FIELD_SIZE)"

text \<open>The \<^verbatim>\<open>'right'\<close> case; \<^verbatim>\<open>self[row][:-1]\<close> is \<open>butlast\<close>.\<close>

definition shift_right :: "field \<Rightarrow> field" where
  "shift_right fd =
     foldl (\<lambda>fd row.
              let new_row = [Position row (- 1) EMPTY_SYMBOL] @ butlast (fd ! nat row)
              in fd[nat row := update_cols (\<lambda>p. p\<lparr>y_coord := y_coord p + 1\<rparr>)
                                 (py_range FIELD_SIZE) new_row])
           fd (py_range FIELD_SIZE)"

text \<open>
  The \<^verbatim>\<open>'up'\<close> case. \<^verbatim>\<open>self.field_data[row] = self.field_data[row + 1]\<close> makes
  both entries the same list object, so the decrements of the inner loop, which runs over
  \<^verbatim>\<open>range(FIELD_SIZE - 1)\<close>, are seen through both entries until the next round (or
  the new last row) replaces entry \<open>row + 1\<close>.
\<close>

definition shift_up :: "field \<Rightarrow> field" where
  "shift_up fd =
     foldl (\<lambda>fd row.
              let shared = update_cols (\<lambda>p. p\<lparr>x_coord := x_coord p - 1\<rparr>)
                             (py_range (FIELD_SIZE - 1)) (fd ! nat (row + 1))
              in fd[nat row := shared, nat (row + 1) := shared])
           fd (py_range (FIELD_SIZE - 1))"

text \<open>The \<^verbatim>\<open>'down'\<close> case, rows \<open>FIELD_SIZE - 1\<close> down to \<open>1\<close>.\<close>

definition shift_down :: "field \<Rightarrow> field" where
  "shift_down fd =
     foldl (\<lambda>fd row.
              let shared = update_cols (\<lambda>p. p\<lparr>x_coord := x_coord p + 1\<rparr>)
                             (py_range (FIELD_SIZE - 1)) (fd ! nat (row - 1))
              in fd[nat row := shared, nat (row - 1) := shared])
           fd (py_range_down (FIELD_SIZE - 1) 0)"

text \<open>
  \<^verbatim>\<open>for i in range(n): random_row = random.randint(0, FIELD_SIZE - 1);
  self[random_row][col].data = OBSTACLE_SYMBOL\<close>
\<close>

fun place_edge_obstacles :: "nat \<Rightarrow> int \<Rightarrow> field \<Rightarrow> rng \<Rightarrow> (field \<times> rng) option" where
  "place_edge_obstacles 0 col fd rng = Some (fd, rng)"
| "place_edge_obstacles (Suc n) col fd rng =
     (case randint 0 (FIELD_SIZE - 1) rng of
        None \<Rightarrow> None
      | Some (random_row, rng') \<Rightarrow>
          place_edge_obstacles n col (set_data fd random_row col OBSTACLE_SYMBOL) rng')"

definition move_objects :: "string \<Rightarrow> field \<Rightarrow> rng \<Rightarrow> (field \<times> rng) option" where
  "move_objects direction fd rng =
     (let fd0 = set_data fd MIDDLE_POS MIDDLE_POS EMPTY_SYMBOL;
          shifted =
            (if direction = ''left'' then
               place_edge_obstacles 2 (FIELD_SIZE - 1) (shift_left fd0) rng
             else if direction = ''right'' then
               place_edge_obstacles 2 0 (shift_right fd0) rng
             else if direction = ''up'' then
               (case generate_row (FIELD_SIZE - 1) rng of
                  None \<Rightarrow> None
                | Some (new_row, rng') \<Rightarrow>
                    Some ((shift_up fd0)[nat (FIELD_SIZE - 1) := new_row], rng'))
             else if direction = ''down'' then
               (case generate_row 0 rng of
                  None \<Rightarrow> None
                | Some (new_row, rng') \<Rightarrow> Some ((shift_down fd0)[0 := new_row], rng'))
             else Some (fd0, rng))
      in case shifted of
           None \<Rightarrow> None
         | Some (fd1, rng1) \<Rightarrow>
             Some (set_data fd1 MIDDLE_POS MIDDLE_POS PLAYER_SYMBOL, rng1))"

subsection \<open>Cats\<close>

text \<open>
  The \<^verbatim>\<open>for\<close> loop of \<^verbatim>\<open>move_cat\<close> over \<^verbatim>\<open>positions_to_check[1:]\<close>; the
  loop state is \<^verbatim>\<open>(current_distance, current_position)\<close>. The bounds test comes
  before the cell is read.
\<close>

fun move_cat_loop :: "field \<Rightarrow> (int \<times> int) list \<Rightarrow> int \<times> (int \<times> int) \<Rightarrow> int \<times> (int \<times> int)" where
  "move_cat_loop fd [] cur = cur"
| "move_cat_loop fd (position # rest) (current_distance, current_position) =
     (let x = fst position; y = snd position in
      if x < 0 \<or> x \<ge> FIELD_SIZE \<or> y < 0 \<or> y \<ge> FIELD_SIZE then
        move_cat_loop fd rest (current_distance, current_position)
      else if data (cell fd x y) \<noteq> EMPTY_SYMBOL then
        move_cat_loop fd rest (current_distance, current_position)
      else
        (let new_distance = manhattan (cell fd MIDDLE_POS MIDDLE_POS) position in
         if new_distance < current_distance then
           move_cat_loop fd rest (new_distance, position)
         else move_cat_loop fd rest (current_distance, current_position)))"

definition positions_to_check :: "int \<Rightarrow> int \<Rightarrow> (int \<times> int) list" where
  "positions_to_check cat_row cat_column =
     [(cat_row, cat_column),
      (cat_row, cat_column - 1),
      (cat_row, cat_column + 1),
      (cat_row - 1, cat_column),
      (cat_row + 1, cat_column)]"

text \<open>The cell \<^verbatim>\<open>current_position\<close> that \<^verbatim>\<open>move_cat\<close> has chosen when its loop ends.\<close>

definition move_cat_target :: "int \<Rightarrow> int \<Rightarrow> field \<Rightarrow> int \<times> int" where
  "move_cat_target cat_row cat_column fd =
     (let current_position = hd (positions_to_check cat_row cat_column);
          current_distance = manhattan (cell fd MIDDLE_POS MIDDLE_POS) current_position
      in snd (move_cat_loop fd (tl (positions_to_check cat_row cat_column))
                (current_distance, current_position)))"

definition move_cat :: "int \<Rightarrow> int \<Rightarrow> field \<Rightarrow> field" where
  "move_cat cat_row cat_column fd =
     (let current_position = move_cat_target cat_row cat_column fd;
          fd1 = set_data fd cat_row cat_column EMPTY_SYMBOL
      in set_data fd1 (fst current_position) (snd current_position) CAT_SYMBOL)"

definition is_game_over :: "field \<Rightarrow> bool" where
  "is_game_over fd = list_ex (\<lambda>(x, y). data (cell fd x y) = CAT_SYMBOL) POSITIONS_TO_CHECK_CATS"

text \<open>
  The two nested loops of \<^verbatim>\<open>proceed_cats_turn\<close> visit the coordinates row by row; the
  \<^verbatim>\<open>return\<close> leaves both. Each cell is tested on the field as it is when the scan
  gets there.
\<close>

fun proceed_cats_scan :: "(int \<times> int) list \<Rightarrow> field \<Rightarrow> field" where
  "proceed_cats_scan [] fd = fd"
| "proceed_cats_scan ((row, col) # rest) fd =
     (if data (cell fd row col) = CAT_SYMBOL then
        (let fd' = move_cat row col fd in
         if is_game_over fd' then fd' else proceed_cats_scan rest fd')
      else proceed_cats_scan rest fd)"

definition scan_order :: "(int \<times> int) list" where
  "scan_order = List.product (py_range FIELD_SIZE) (py_range FIELD_SIZE)"

definition proceed_cats_turn :: "field \<Rightarrow> field" where
  "proceed_cats_turn fd = proceed_cats_scan scan_order fd"

text \<open>
  The coordinates at which the scan calls \<^verbatim>\<open>move_cat\<close>, in call order. The source
  does not compute this list; it follows the control flow of \<open>proceed_cats_scan\<close>.
\<close>

fun move_cat_calls :: "(int \<times> int) list \<Rightarrow> field \<Rightarrow> (int \<times> int) list" where
  "move_cat_calls [] fd = []"
| "move_cat_calls ((row, col) # rest) fd =
     (if data (cell fd row col) = CAT_SYMBOL then
        (let fd' = move_cat row col fd in
         if is_game_over fd' then [(row, col)] else (row, col) # move_cat_calls rest fd')
      else move_cat_calls rest fd)"

text \<open>
  Whether the scan leaves through the \<^verbatim>\<open>return\<close>: the test of
  \<^verbatim>\<open>is_game_over\<close> that follows a call of \<^verbatim>\<open>move_cat\<close> was true, so that the
  coordinates after it are not visited. The source does not compute this flag; it follows
  the control flow of \<open>proceed_cats_scan\<close>.
\<close>

fun scan_returns_early :: "(int \<times> int) list \<Rightarrow> field \<Rightarrow> bool" where
  "scan_returns_early [] fd = False"
| "scan_returns_early ((row, col) # rest) fd =
     (if data (cell fd row col) = CAT_SYMBOL then
        (let fd' = move_cat row col fd in
         if is_game_over fd' then True else scan_returns_early rest fd')
      else scan_returns_early rest fd)"

subsection \<open>The player's move and the turn\<close>

datatype error = ValueError string

text \<open>
  \<^verbatim>\<open>move_player\<close> returns the outcome (the exception raised, or the return of
  \<^verbatim>\<open>None\<close>) together with the field and the random source as they are at that moment.
\<close>

definition move_player :: "string \<Rightarrow> field \<Rightarrow> rng \<Rightarrow> ((error + unit) \<times> field \<times> rng) option" where
  "move_player direction fd rng =
     (if direction \<notin> dom DIRECTIONS then Some (Inl (ValueError ''invalid direction''), fd, rng)
      else
        (let moved = (\<lambda>clear.
               if clear then
                 (case move_objects (the (DIRECTIONS direction)) fd rng of
                    None \<Rightarrow> None
                  | Some (fd', rng') \<Rightarrow> Some (Inr (), fd', rng'))
               else Some (Inr (), fd, rng))
         in if direction = ''left'' then
              moved (data (cell fd MIDDLE_POS (MIDDLE_POS - 1)) = EMPTY_SYMBOL)
            else if direction = ''right'' then
              moved (data (cell fd MIDDLE_POS (MIDDLE_POS + 1)) = EMPTY_SYMBOL)
            else if direction = ''up'' then
              moved (data (cell fd (MIDDLE_POS - 1) MIDDLE_POS) = EMPTY_SYMBOL)
            else if direction = ''down'' then
              moved (data (cell fd (MIDDLE_POS + 1) MIDDLE_POS) = EMPTY_SYMBOL)
            else Some (Inr (), fd, rng)))"

text \<open>
  \<^verbatim>\<open>Bot.proceed_message\<close> for one chat whose field is in \<^verbatim>\<open>players_data\<close> (the
  loop of \<^verbatim>\<open>run\<close> puts it there before the call). The reply is the message constant
  that starts the text sent and the cell symbols formatted into it, row by row.
\<close>

datatype reply =
    NEW_GAME_MESSAGE "symbol list"
  | GAME_OVER_MESSAGE "symbol list"
  | GOOD_JOB_MESSAGE "symbol list"
  | PROGRESS_LOADED_MESSAGE "symbol list"

definition cells :: "field \<Rightarrow> symbol list" where
  "cells fd = map data (concat fd)"

definition proceed_message :: "string \<Rightarrow> field \<Rightarrow> rng \<Rightarrow> ((error + reply) \<times> field \<times> rng) option" where
  "proceed_message message fd rng =
     (if message = ''/newgame'' then
        (case GameField rng of
           None \<Rightarrow> None
         | Some (fd', rng') \<Rightarrow> Some (Inr (NEW_GAME_MESSAGE (cells fd')), fd', rng'))
      else if message \<in> {''/left'', ''/right'', ''/up'', ''/down''} then
        (case move_player (drop 1 message) fd rng of
           None \<Rightarrow> None
         | Some (Inl e, fd1, rng1) \<Rightarrow> Some (Inl e, fd1, rng1)
         | Some (Inr u, fd1, rng1) \<Rightarrow>
             (let fd2 = proceed_cats_turn fd1 in
              case generate_cats 1 fd2 rng1 of
                None \<Rightarrow> None
              | Some (fd3, rng3) \<Rightarrow>
                  Some (Inr (if is_game_over fd3 then GAME_OVER_MESSAGE (cells fd3)
                             else GOOD_JOB_MESSAGE (cells fd3)),
                        fd3, rng3)))
      else Some (Inr (PROGRESS_LOADED_MESSAGE (cells fd)), fd, rng))"

subsection \<open>Vocabulary of the properties\<close>

text \<open>A coordinate pair that passes the bounds test of \<^verbatim>\<open>move_cat\<close>.\<close>

definition in_bounds :: "int \<times> int \<Rightarrow> bool" where
  "in_bounds p = (0 \<le> fst p \<and> fst p < FIELD_SIZE \<and> 0 \<le> snd p \<and> snd p < FIELD_SIZE)"

text \<open>A field of \<open>FIELD_SIZE\<close> rows of \<open>FIELD_SIZE\<close> cells.\<close>

definition well_shaped :: "field \<Rightarrow> bool" where
  "well_shaped fd = (length fd = nat FIELD_SIZE \<and> list_all (\<lambda>row. length row = nat FIELD_SIZE) fd)"

text \<open>The Manhattan distance of a coordinate pair to the centre of the field.\<close>

definition center_distance :: "int \<times> int \<Rightarrow> int" where
  "center_distance p = \<bar>fst p - MIDDLE_POS\<bar> + \<bar>snd p - MIDDLE_POS\<bar>"

text \<open>Every cell stores the coordinates of the place it is at.\<close>

definition coords_consistent :: "field \<Rightarrow> bool" where
  "coords_consistent fd =
     list_all (\<lambda>(r, c). x_coord (cell fd r c) = r \<and> y_coord (cell fd r c) = c) scan_order"

text \<open>
  The loop of \<^verbatim>\<open>Bot.run\<close> over the successive messages of one chat: each message
  goes to \<^verbatim>\<open>proceed_message\<close>; an exception ends the run.
\<close>

fun proceed_messages :: "string list \<Rightarrow> field \<Rightarrow> rng \<Rightarrow> ((error + reply list) \<times> field \<times> rng) option" where
  "proceed_messages [] fd rng = Some (Inr [], fd, rng)"
| "proceed_messages (message # rest) fd rng =
     (case proceed_message message fd rng of
        None \<Rightarrow> None
      | Some (Inl e, fd', rng') \<Rightarrow> Some (Inl e, fd', rng')
      | Some (Inr r, fd', rng') \<Rightarrow>
          (case proceed_messages rest fd' rng' of
             None \<Rightarrow> None
           | Some (Inl e, fd'', rng'') \<Rightarrow> Some (Inl e, fd'', rng'')
           | Some (Inr rs, fd'', rng'') \<Rightarrow> Some (Inr (r # rs), fd'', rng'')))"

text \<open>The grid of symbols of a field: what \<^verbatim>\<open>str(self)\<close> shows, row by row.\<close>

definition symbols :: "field \<Rightarrow> symbol list list" where
  "symbols fd = map (map data) fd"

text \<open>A grid of 5 rows of 5 symbols.\<close>

definition grid_shape :: "symbol list list \<Rightarrow> bool" where
  "grid_shape g = (length g = 5 \<and> (\<forall>row\<in>set g. length row = 5))"

text \<open>
  A grid that holds no player symbol: the field between the two writes of
  \<^verbatim>\<open>move_objects\<close> to the centre.
\<close>

definition no_player :: "symbol list list \<Rightarrow> bool" where
  "no_player g = (grid_shape g \<and> (\<forall>row\<in>set g. PLAYER_SYMBOL \<notin> set row))"

text \<open>The player symbol is at row 2, column 2 of the grid and nowhere else.\<close>

definition pinv :: "symbol list list \<Rightarrow> bool" where
  "pinv g = (grid_shape g \<and> (\<forall>i<5. \<forall>j<5. (g ! i ! j = PLAYER_SYMBOL) = (i = 2 \<and> j = 2)))"

text \<open>One symbol of the grid replaced.\<close>

definition grid_set :: "symbol list list \<Rightarrow> nat \<Rightarrow> nat \<Rightarrow> symbol \<Rightarrow> symbol list list" where
  "grid_set g i j s = g[i := (g ! i)[j := s]]"

text \<open>The position \<^verbatim>\<open>generate_cats\<close> picks from two successive draws.\<close>

definition cat_draw :: "nat \<Rightarrow> nat \<Rightarrow> int \<times> int" where
  "cat_draw r1 r2 =
     [(0, int r1 mod 5), (4, int r1 mod 5), (int r1 mod 5, 0), (int r1 mod 5, 4)] ! (r2 mod 4)"

text \<open>The position \<^verbatim>\<open>generate_obstacles\<close> picks from two successive draws.\<close>

definition obstacle_draw :: "nat \<Rightarrow> nat \<Rightarrow> int \<times> int" where
  "obstacle_draw r1 r2 = (int r1 mod 5, int r2 mod 5)"

text \<open>The invariant of the field: the player symbol is at the centre and nowhere else.\<close>

definition player_inv :: "field \<Rightarrow> bool" where
  "player_inv fd = pinv (symbols fd)"

text \<open>The cell next to the centre that \<^verbatim>\<open>move_player\<close> tests for a direction.\<close>

definition direction_cell :: "string \<Rightarrow> int \<times> int" where
  "direction_cell direction =
     (if direction = ''left'' then (MIDDLE_POS, MIDDLE_POS - 1)
      else if direction = ''right'' then (MIDDLE_POS, MIDDLE_POS + 1)
      else if direction = ''up'' then (MIDDLE_POS - 1, MIDDLE_POS)
      else (MIDDLE_POS + 1, MIDDLE_POS))"

text \<open>The coordinates that hold the player symbol, in scan order.\<close>

definition player_cells :: "field \<Rightarrow> (int \<times> int) list" where
  "player_cells fd = filter (\<lambda>(r, c). data (cell fd r c) = PLAYER_SYMBOL) scan_order"

text \<open>The fields a game can reach: a new game, then any sequence of player moves, cat turns and cat spawns.\<close>

inductive reachable :: "field \<Rightarrow> bool" where
  new_game: "GameField rng = Some (fd, rng') \<Longrightarrow> reachable fd"
| player_moved:
    "reachable fd \<Longrightarrow> move_player direction fd rng = Some (outcome, fd', rng') \<Longrightarrow> reachable fd'"
| cats_moved: "reachable fd \<Longrightarrow> reachable (proceed_cats_turn fd)"
| cats_spawned:
    "reachable fd \<Longrightarrow> generate_cats number fd rng = Some (fd', rng') \<Longrightarrow> reachable fd'"





text \<open>A coordinate pair that is on no edge row and no edge column.\<close>

definition interior :: "int \<times> int \<Rightarrow> bool" where
  "interior p = (0 < fst p \<and> fst p < FIELD_SIZE - 1 \<and> 0 < snd p \<and> snd p < FIELD_SIZE - 1)"

text \<open>The cell at a position holds the empty symbol.\<close>

definition empty_at :: "field \<Rightarrow> int \<times> int \<Rightarrow> bool" where
  "empty_at fd p = (data (cell fd (fst p) (snd p)) = EMPTY_SYMBOL)"

text \<open>The positions \<^verbatim>\<open>generate_obstacles\<close> tries on a list of draws, two draws per position.\<close>

fun obstacle_draws :: "rng \<Rightarrow> (int \<times> int) list" where
  "obstacle_draws (r1 # r2 # rest) = obstacle_draw r1 r2 # obstacle_draws rest"
| "obstacle_draws rng = []"

text \<open>The order in which the two loops of \<^verbatim>\<open>proceed_cats_turn\<close> visit the coordinates.\<close>

definition row_major_less :: "int \<times> int \<Rightarrow> int \<times> int \<Rightarrow> bool" where
  "row_major_less p q = (fst p < fst q \<or> (fst p = fst q \<and> snd p < snd q))"

text \<open>Each call of a list of \<^verbatim>\<open>move_cat\<close> calls, made in order, is made at a cell that holds a cat at that moment.\<close>

fun cats_at_calls :: "(int \<times> int) list \<Rightarrow> field \<Rightarrow> bool" where
  "cats_at_calls [] fd = True"
| "cats_at_calls ((row, col) # rest) fd =
     (data (cell fd row col) = CAT_SYMBOL \<and> cats_at_calls rest (move_cat row col fd))"

text \<open>An example field: a cat in the upper left corner and three obstacles that keep it away from the player.\<close>

definition chased_field :: field where
  "chased_field =
     set_data (set_data (set_data (set_data generate_clear 0 0 CAT_SYMBOL)
        0 2 OBSTACLE_SYMBOL) 1 2 OBSTACLE_SYMBOL) 2 1 OBSTACLE_SYMBOL"

text \<open>A cell a cat may move to: within bounds and empty.\<close>

definition candidate :: "field \<Rightarrow> int \<times> int \<Rightarrow> bool" where
  "candidate fd q = (in_bounds q \<and> data (cell fd (fst q) (snd q)) = EMPTY_SYMBOL)"

text \<open>The distance \<^verbatim>\<open>move_cat\<close> computes: from the coordinates stored in the centre cell.\<close>

definition stored_distance :: "field \<Rightarrow> int \<times> int \<Rightarrow> int" where
  "stored_distance fd q = manhattan (cell fd MIDDLE_POS MIDDLE_POS) q"

section \<open>Basic facts\<close>

lemma FIELD_SIZE_5: "FIELD_SIZE = 5" by (simp add: FIELD_SIZE_def)
lemma MIDDLE_POS_2: "MIDDLE_POS = 2" by (simp add: MIDDLE_POS_def FIELD_SIZE_def)

lemma py_range_5: "py_range 5 = [0, 1, 2, 3, 4]"
  by code_simp

lemma py_range_4: "py_range 4 = [0, 1, 2, 3]"
  by code_simp

lemma py_range_down_4_0: "py_range_down 4 0 = [4, 3, 2, 1]"
  by code_simp

lemma well_shaped_nth:
  "well_shaped fd \<Longrightarrow> 0 \<le> x \<Longrightarrow> x < FIELD_SIZE \<Longrightarrow> length (fd ! nat x) = nat FIELD_SIZE"
  by (simp add: well_shaped_def list_all_length)

lemma well_shaped_length: "well_shaped fd \<Longrightarrow> length fd = nat FIELD_SIZE"
  by (simp add: well_shaped_def)

lemma list_all_update: "list_all P xs \<Longrightarrow> P v \<Longrightarrow> list_all P (xs[i := v])"
  by (induction xs arbitrary: i) (auto split: nat.splits)

lemma well_shaped_set_data: "well_shaped fd \<Longrightarrow> well_shaped (set_data fd x y s)"
proof -
  assume w: "well_shaped fd"
  show ?thesis
  proof (cases "nat x < length fd")
    case True
    with w have "length (fd ! nat x) = nat FIELD_SIZE"
      by (simp add: well_shaped_def list_all_length)
    with w show ?thesis
      by (simp add: well_shaped_def set_data_def list_all_update)
  next
    case False
    with w show ?thesis by (simp add: set_data_def list_update_beyond)
  qed
qed

lemma cell_set_data:
  assumes "well_shaped fd" "in_bounds (x, y)" "in_bounds (x', y')"
  shows "cell (set_data fd x y s) x' y' =
           (if x' = x \<and> y' = y then (cell fd x y)\<lparr>data := s\<rparr> else cell fd x' y')"
  using assms well_shaped_nth[of fd x] well_shaped_length[of fd]
  by (auto simp: cell_def set_data_def in_bounds_def nth_list_update)

lemma generate_clear_eval:
  "generate_clear = 
    [[Position 0 0 EMPTY_SYMBOL, Position 0 1 EMPTY_SYMBOL, Position 0 2 EMPTY_SYMBOL, Position 0 3 EMPTY_SYMBOL, Position 0 4 EMPTY_SYMBOL],
     [Position 1 0 EMPTY_SYMBOL, Position 1 1 EMPTY_SYMBOL, Position 1 2 EMPTY_SYMBOL, Position 1 3 EMPTY_SYMBOL, Position 1 4 EMPTY_SYMBOL],
     [Position 2 0 EMPTY_SYMBOL, Position 2 1 EMPTY_SYMBOL, Position 2 2 PLAYER_SYMBOL, Position 2 3 EMPTY_SYMBOL, Position 2 4 EMPTY_SYMBOL],
     [Position 3 0 EMPTY_SYMBOL, Position 3 1 EMPTY_SYMBOL, Position 3 2 EMPTY_SYMBOL, Position 3 3 EMPTY_SYMBOL, Position 3 4 EMPTY_SYMBOL],
     [Position 4 0 EMPTY_SYMBOL, Position 4 1 EMPTY_SYMBOL, Position 4 2 EMPTY_SYMBOL, Position 4 3 EMPTY_SYMBOL, Position 4 4 EMPTY_SYMBOL]]"
  by code_simp

section \<open>Game over\<close>

text \<open>
  Claim C7. \<^verbatim>\<open>is_game_over\<close> is true exactly when one of the four cells at Manhattan
  distance 1 from the centre holds a cat; a cat at distance 2 or more does not count. The
  function reads the field and returns a truth value: it has no field to return, so the
  field after the call is the field before it.
\<close>

theorem is_game_over_iff:
  "is_game_over fd \<longleftrightarrow>
     (\<exists>x y. in_bounds (x, y) \<and> \<bar>x - MIDDLE_POS\<bar> + \<bar>y - MIDDLE_POS\<bar> = 1
            \<and> data (cell fd x y) = CAT_SYMBOL)"
proof
  assume "is_game_over fd"
  then consider "data (cell fd 2 1) = CAT_SYMBOL" | "data (cell fd 2 3) = CAT_SYMBOL"
    | "data (cell fd 1 2) = CAT_SYMBOL" | "data (cell fd 3 2) = CAT_SYMBOL"
    by (auto simp: is_game_over_def POSITIONS_TO_CHECK_CATS_def MIDDLE_POS_2)
  then show "\<exists>x y. in_bounds (x, y) \<and> \<bar>x - MIDDLE_POS\<bar> + \<bar>y - MIDDLE_POS\<bar> = 1
            \<and> data (cell fd x y) = CAT_SYMBOL"
  proof cases
    case 1 then show ?thesis
      by (intro exI[of _ 2] exI[of _ 1]) (simp add: in_bounds_def FIELD_SIZE_5 MIDDLE_POS_2)
  next
    case 2 then show ?thesis
      by (intro exI[of _ 2] exI[of _ 3]) (simp add: in_bounds_def FIELD_SIZE_5 MIDDLE_POS_2)
  next
    case 3 then show ?thesis
      by (intro exI[of _ 1] exI[of _ 2]) (simp add: in_bounds_def FIELD_SIZE_5 MIDDLE_POS_2)
  next
    case 4 then show ?thesis
      by (intro exI[of _ 3] exI[of _ 2]) (simp add: in_bounds_def FIELD_SIZE_5 MIDDLE_POS_2)
  qed
next
  assume "\<exists>x y. in_bounds (x, y) \<and> \<bar>x - MIDDLE_POS\<bar> + \<bar>y - MIDDLE_POS\<bar> = 1
            \<and> data (cell fd x y) = CAT_SYMBOL"
  then obtain x y where b: "\<bar>x - 2\<bar> + \<bar>y - 2\<bar> = 1" and c: "data (cell fd x y) = CAT_SYMBOL"
    by (auto simp: MIDDLE_POS_2)
  from b have "(x = 2 \<and> y = 1) \<or> (x = 2 \<and> y = 3) \<or> (x = 1 \<and> y = 2) \<or> (x = 3 \<and> y = 2)"
    by arith
  with c show "is_game_over fd"
    by (auto simp: is_game_over_def POSITIONS_TO_CHECK_CATS_def MIDDLE_POS_2)
qed

lemma cat12: "data (cell (set_data generate_clear 1 2 CAT_SYMBOL) 1 2) = CAT_SYMBOL"
  by code_simp

lemma cat02: "\<not> is_game_over (set_data generate_clear 0 2 CAT_SYMBOL)"
  by code_simp

theorem is_game_over_iff_witness:
  "is_game_over (set_data generate_clear 1 2 CAT_SYMBOL)
   \<and> \<not> (\<exists>x y. in_bounds (x, y) \<and> \<bar>x - MIDDLE_POS\<bar> + \<bar>y - MIDDLE_POS\<bar> = 1
            \<and> data (cell (set_data generate_clear 0 2 CAT_SYMBOL) x y) = CAT_SYMBOL)"
proof
  have "in_bounds (1, 2) \<and> \<bar>1 - MIDDLE_POS\<bar> + \<bar>2 - MIDDLE_POS\<bar> = 1
          \<and> data (cell (set_data generate_clear 1 2 CAT_SYMBOL) 1 2) = CAT_SYMBOL"
    by (simp add: cat12 in_bounds_def FIELD_SIZE_5 MIDDLE_POS_2)
  then show "is_game_over (set_data generate_clear 1 2 CAT_SYMBOL)"
    using is_game_over_iff [of "set_data generate_clear 1 2 CAT_SYMBOL"] by blast
next
  show "\<not> (\<exists>x y. in_bounds (x, y) \<and> \<bar>x - MIDDLE_POS\<bar> + \<bar>y - MIDDLE_POS\<bar> = 1
            \<and> data (cell (set_data generate_clear 0 2 CAT_SYMBOL) x y) = CAT_SYMBOL)"
    using is_game_over_iff [of "set_data generate_clear 0 2 CAT_SYMBOL"] cat02 by blast
qed

section \<open>Invalid directions\<close>

text \<open>
  Claim C9. For every string that is not one of \<^verbatim>\<open>left\<close>, \<^verbatim>\<open>right\<close>,
  \<^verbatim>\<open>up\<close>, \<^verbatim>\<open>down\<close>, \<^verbatim>\<open>move_player\<close> raises
  \<^verbatim>\<open>ValueError('invalid direction')\<close>, and the field and the random source at the
  raise are the ones it was called with.
\<close>

theorem move_player_invalid_direction:
  assumes "direction \<notin> {''left'', ''right'', ''up'', ''down''}"
  shows "move_player direction fd rng = Some (Inl (ValueError ''invalid direction''), fd, rng)"
  using assms by (simp add: move_player_def DIRECTIONS_def)

theorem move_player_invalid_direction_witness:
  "move_player ''north'' generate_clear [1, 2, 3]
     = Some (Inl (ValueError ''invalid direction''), generate_clear, [1, 2, 3])"
  using move_player_invalid_direction [of "''north''" generate_clear "[1, 2, 3]"] by simp

section \<open>One step of a cat\<close>

lemma move_cat_loop_step:
  "move_cat_loop fd (q # ps) (d, p) = move_cat_loop fd ps (d, p)
   \<or> (in_bounds q \<and> data (cell fd (fst q) (snd q)) = EMPTY_SYMBOL
      \<and> manhattan (cell fd MIDDLE_POS MIDDLE_POS) q < d
      \<and> move_cat_loop fd (q # ps) (d, p)
          = move_cat_loop fd ps (manhattan (cell fd MIDDLE_POS MIDDLE_POS) q, q))"
  by (simp add: Let_def in_bounds_def)

lemma move_cat_loop_result:
  "move_cat_loop fd ps (d, p) = (d', p') \<Longrightarrow>
     p' = p \<or> (p' \<in> set ps \<and> in_bounds p' \<and> data (cell fd (fst p') (snd p')) = EMPTY_SYMBOL)"
proof (induction ps arbitrary: d p)
  case Nil
  then show ?case by simp
next
  case (Cons q ps)
  from move_cat_loop_step [of fd q ps d p] show ?case
  proof
    assume "move_cat_loop fd (q # ps) (d, p) = move_cat_loop fd ps (d, p)"
    with Cons.prems have "move_cat_loop fd ps (d, p) = (d', p')" by simp
    from Cons.IH [OF this] show ?thesis by auto
  next
    assume a: "in_bounds q \<and> data (cell fd (fst q) (snd q)) = EMPTY_SYMBOL
      \<and> manhattan (cell fd MIDDLE_POS MIDDLE_POS) q < d
      \<and> move_cat_loop fd (q # ps) (d, p)
          = move_cat_loop fd ps (manhattan (cell fd MIDDLE_POS MIDDLE_POS) q, q)"
    with Cons.prems
    have "move_cat_loop fd ps (manhattan (cell fd MIDDLE_POS MIDDLE_POS) q, q) = (d', p')"
      by simp
    from Cons.IH [OF this] a show ?thesis by auto
  qed
qed

lemma hd_positions_to_check: "hd (positions_to_check cat_row cat_column) = (cat_row, cat_column)"
  by (simp add: positions_to_check_def)

lemma move_cat_target_cases:
  assumes "in_bounds (cat_row, cat_column)"
  shows "in_bounds (move_cat_target cat_row cat_column fd)
         \<and> (move_cat_target cat_row cat_column fd = (cat_row, cat_column)
            \<or> data (cell fd (fst (move_cat_target cat_row cat_column fd))
                             (snd (move_cat_target cat_row cat_column fd))) = EMPTY_SYMBOL)"
proof -
  obtain d' p' where r:
    "move_cat_loop fd (tl (positions_to_check cat_row cat_column))
       (manhattan (cell fd MIDDLE_POS MIDDLE_POS) (cat_row, cat_column), (cat_row, cat_column))
     = (d', p')"
    by (cases "move_cat_loop fd (tl (positions_to_check cat_row cat_column))
       (manhattan (cell fd MIDDLE_POS MIDDLE_POS) (cat_row, cat_column), (cat_row, cat_column))")
  have t: "move_cat_target cat_row cat_column fd = p'"
    by (simp only: move_cat_target_def Let_def hd_positions_to_check r snd_conv)
  from move_cat_loop_result [OF r] assms show ?thesis
    unfolding t by auto
qed

lemma well_shaped_move_cat: "well_shaped fd \<Longrightarrow> well_shaped (move_cat cat_row cat_column fd)"
  by (simp add: move_cat_def Let_def well_shaped_set_data)

lemma cell_move_cat:
  assumes "well_shaped fd" "in_bounds (cat_row, cat_column)" "in_bounds (x, y)"
  shows "cell (move_cat cat_row cat_column fd) x y =
           (if (x, y) = move_cat_target cat_row cat_column fd then (cell fd x y)\<lparr>data := CAT_SYMBOL\<rparr>
            else if (x, y) = (cat_row, cat_column) then (cell fd x y)\<lparr>data := EMPTY_SYMBOL\<rparr>
            else cell fd x y)"
proof -
  obtain tx ty where t: "move_cat_target cat_row cat_column fd = (tx, ty)"
    by (cases "move_cat_target cat_row cat_column fd")
  with move_cat_target_cases [OF assms(2), of fd] have tb: "in_bounds (tx, ty)" by simp
  have w1: "well_shaped (set_data fd cat_row cat_column EMPTY_SYMBOL)"
    using assms(1) by (rule well_shaped_set_data)
  have "cell (move_cat cat_row cat_column fd) x y
        = cell (set_data (set_data fd cat_row cat_column EMPTY_SYMBOL) tx ty CAT_SYMBOL) x y"
    by (simp add: move_cat_def Let_def t)
  also have "\<dots> = (if x = tx \<and> y = ty
                     then (cell (set_data fd cat_row cat_column EMPTY_SYMBOL) tx ty)\<lparr>data := CAT_SYMBOL\<rparr>
                     else cell (set_data fd cat_row cat_column EMPTY_SYMBOL) x y)"
    by (rule cell_set_data [OF w1 tb assms(3)])
  finally have m: "cell (move_cat cat_row cat_column fd) x y
       = (if x = tx \<and> y = ty
          then (cell (set_data fd cat_row cat_column EMPTY_SYMBOL) tx ty)\<lparr>data := CAT_SYMBOL\<rparr>
          else cell (set_data fd cat_row cat_column EMPTY_SYMBOL) x y)" .
  have a: "cell (set_data fd cat_row cat_column EMPTY_SYMBOL) x y
        = (if x = cat_row \<and> y = cat_column then (cell fd cat_row cat_column)\<lparr>data := EMPTY_SYMBOL\<rparr>
           else cell fd x y)"
    by (rule cell_set_data [OF assms(1) assms(2) assms(3)])
  have b: "cell (set_data fd cat_row cat_column EMPTY_SYMBOL) tx ty
        = (if tx = cat_row \<and> ty = cat_column then (cell fd cat_row cat_column)\<lparr>data := EMPTY_SYMBOL\<rparr>
           else cell fd tx ty)"
    by (rule cell_set_data [OF assms(1) assms(2) tb])
  show ?thesis
    unfolding m a b t by auto
qed

text \<open>
  Claim C10. On a field of \<open>FIELD_SIZE\<close> rows and columns and for a cat coordinate within
  bounds, the cell \<^verbatim>\<open>move_cat\<close> writes the cat symbol to is within bounds and is
  the cat's own cell or a cell that held the empty symbol before the call; the field after
  the call differs from the field before it at that cell and at the cat's cell only, so that
  every other cell that is not empty (the player, an obstacle, another cat) is left as it
  was. Candidates outside the bounds are skipped before their cell is read.
\<close>

theorem move_cat_writes:
  assumes "well_shaped fd" and "in_bounds (cat_row, cat_column)"
  shows "in_bounds (move_cat_target cat_row cat_column fd)
     \<and> (move_cat_target cat_row cat_column fd = (cat_row, cat_column)
        \<or> data (cell fd (fst (move_cat_target cat_row cat_column fd))
                         (snd (move_cat_target cat_row cat_column fd))) = EMPTY_SYMBOL)
     \<and> (\<forall>x y. in_bounds (x, y) \<longrightarrow>
           cell (move_cat cat_row cat_column fd) x y =
             (if (x, y) = move_cat_target cat_row cat_column fd
                then (cell fd x y)\<lparr>data := CAT_SYMBOL\<rparr>
              else if (x, y) = (cat_row, cat_column)
                then (cell fd x y)\<lparr>data := EMPTY_SYMBOL\<rparr>
              else cell fd x y))
     \<and> (\<forall>x y. in_bounds (x, y) \<and> (x, y) \<noteq> (cat_row, cat_column)
               \<and> data (cell fd x y) \<noteq> EMPTY_SYMBOL \<longrightarrow>
           cell (move_cat cat_row cat_column fd) x y = cell fd x y)"
proof (intro conjI allI impI)
  show "in_bounds (move_cat_target cat_row cat_column fd)"
    using move_cat_target_cases [OF assms(2)] by simp
  show "move_cat_target cat_row cat_column fd = (cat_row, cat_column)
        \<or> data (cell fd (fst (move_cat_target cat_row cat_column fd))
                         (snd (move_cat_target cat_row cat_column fd))) = EMPTY_SYMBOL"
    using move_cat_target_cases [OF assms(2)] by simp
next
  fix x y assume "in_bounds (x, y)"
  then show "cell (move_cat cat_row cat_column fd) x y =
             (if (x, y) = move_cat_target cat_row cat_column fd
                then (cell fd x y)\<lparr>data := CAT_SYMBOL\<rparr>
              else if (x, y) = (cat_row, cat_column)
                then (cell fd x y)\<lparr>data := EMPTY_SYMBOL\<rparr>
              else cell fd x y)"
    by (rule cell_move_cat [OF assms])
next
  fix x y
  assume h: "in_bounds (x, y) \<and> (x, y) \<noteq> (cat_row, cat_column)
               \<and> data (cell fd x y) \<noteq> EMPTY_SYMBOL"
  then have n: "(x, y) \<noteq> move_cat_target cat_row cat_column fd"
    using move_cat_target_cases [OF assms(2), of fd] by (metis fst_conv snd_conv)
  from h have b: "in_bounds (x, y)" and o: "(x, y) \<noteq> (cat_row, cat_column)" by simp_all
  show "cell (move_cat cat_row cat_column fd) x y = cell fd x y"
    unfolding cell_move_cat [OF assms b] using n o by auto
qed

theorem move_cat_writes_witness:
  "in_bounds (move_cat_target 0 2 (set_data generate_clear 0 2 CAT_SYMBOL))
   \<and> cell (move_cat 0 2 (set_data generate_clear 0 2 CAT_SYMBOL)) 2 2
       = cell (set_data generate_clear 0 2 CAT_SYMBOL) 2 2"
proof -
  have w: "well_shaped (set_data generate_clear 0 2 CAT_SYMBOL)" by code_simp
  have b: "in_bounds (0, 2)" by code_simp
  have p: "in_bounds (2, 2) \<and> (2 :: int, 2 :: int) \<noteq> (0, 2)
           \<and> data (cell (set_data generate_clear 0 2 CAT_SYMBOL) 2 2) \<noteq> EMPTY_SYMBOL"
    by code_simp
  from move_cat_writes [OF w b] p show ?thesis by blast
qed

section \<open>The player stays at the centre\<close>

lemma length_update_cols [simp]: "length (update_cols f cols row) = length row"
  unfolding update_cols_def
  by (induction cols arbitrary: row) simp_all

lemma map_data_update_cols:
  assumes "\<And>p. data (f p) = data p"
  shows "map data (update_cols f cols row) = map data row"
  unfolding update_cols_def
proof (induction cols arbitrary: row)
  case Nil
  then show ?case by simp
next
  case (Cons c cols)
  have "map data (row[nat c := f (row ! nat c)]) = map data row"
  proof (cases "nat c < length row")
    case True
    then show ?thesis by (simp add: map_update assms list_update_same_conv)
  next
    case False
    then show ?thesis by (simp add: list_update_beyond)
  qed
  with Cons.IH [of "row[nat c := f (row ! nat c)]"] show ?case by simp
qed

lemma length_5_explode:
  assumes "length (xs :: 'a list) = 5"
  obtains a b c d e where "xs = [a, b, c, d, e]"
proof -
  from assms obtain a b c d e where "xs = [a, b, c, d, e]"
    by (auto simp: length_Suc_conv eval_nat_numeral)
  then show ?thesis by (rule that)
qed

lemma symbols_shift_left:
  assumes "length fd = 5"
  shows "symbols (shift_left fd) = map (\<lambda>row. drop 1 row @ [EMPTY_SYMBOL]) (symbols fd)"
proof -
  from assms obtain a b c d e where fd: "fd = [a, b, c, d, e]" by (rule length_5_explode)
  show ?thesis
    by (simp add: fd shift_left_def symbols_def py_range_5 FIELD_SIZE_5 Let_def
          map_data_update_cols Position_def drop_map)
qed

lemma symbols_shift_right:
  assumes "length fd = 5"
  shows "symbols (shift_right fd) = map (\<lambda>row. EMPTY_SYMBOL # butlast row) (symbols fd)"
proof -
  from assms obtain a b c d e where fd: "fd = [a, b, c, d, e]" by (rule length_5_explode)
  show ?thesis
    by (simp add: fd shift_right_def symbols_def py_range_5 FIELD_SIZE_5 Let_def
          map_data_update_cols Position_def map_butlast)
qed

lemma symbols_shift_up:
  assumes "length fd = 5"
  shows "symbols (shift_up fd) = tl (symbols fd) @ [last (symbols fd)]"
proof -
  from assms obtain a b c d e where fd: "fd = [a, b, c, d, e]" by (rule length_5_explode)
  show ?thesis
    by (simp add: fd shift_up_def symbols_def py_range_4 FIELD_SIZE_5 Let_def
          map_data_update_cols)
qed

lemma symbols_shift_down:
  assumes "length fd = 5"
  shows "symbols (shift_down fd) = hd (symbols fd) # butlast (symbols fd)"
proof -
  from assms obtain a b c d e where fd: "fd = [a, b, c, d, e]" by (rule length_5_explode)
  show ?thesis
    by (simp add: fd shift_down_def symbols_def py_range_4 py_range_down_4_0 FIELD_SIZE_5 Let_def
          map_data_update_cols)
qed

lemma symbols_set_data:
  "symbols (set_data fd x y s) = (symbols fd)[nat x := (symbols fd ! nat x)[nat y := s]]"
proof (cases "nat x < length fd")
  case True
  then show ?thesis
    by (simp add: symbols_def set_data_def map_update)
next
  case False
  then show ?thesis by (simp add: symbols_def set_data_def list_update_beyond)
qed

lemma well_shaped_symbols: "well_shaped fd = grid_shape (symbols fd)"
  by (auto simp: well_shaped_def grid_shape_def symbols_def FIELD_SIZE_5 list_all_iff)

lemma symbols_set_data': "symbols (set_data fd x y s) = grid_set (symbols fd) (nat x) (nat y) s"
  by (simp add: symbols_set_data grid_set_def)

lemma data_cell:
  "well_shaped fd \<Longrightarrow> in_bounds (x, y) \<Longrightarrow> data (cell fd x y) = symbols fd ! nat x ! nat y"
proof -
  assume w: "well_shaped fd" and b: "in_bounds (x, y)"
  from b have x: "nat x < 5" and y: "nat y < 5" by (auto simp: in_bounds_def FIELD_SIZE_5)
  from w x have "nat x < length fd" "length (fd ! nat x) = 5"
    by (simp_all add: well_shaped_def list_all_length FIELD_SIZE_5)
  with y show ?thesis by (simp add: cell_def symbols_def)
qed

lemma grid_shape_set: "grid_shape g \<Longrightarrow> grid_shape (grid_set g i j s)"
proof -
  assume a: "grid_shape g"
  show ?thesis
  proof (cases "i < length g")
    case True
    with a have "length (g ! i) = 5" by (simp add: grid_shape_def)
    with a show ?thesis
      by (auto simp: grid_shape_def grid_set_def dest!: subsetD [OF set_update_subset_insert])
  next
    case False
    with a show ?thesis by (simp add: grid_set_def list_update_beyond)
  qed
qed

lemma grid_set_nth:
  "grid_shape g \<Longrightarrow> i < 5 \<Longrightarrow> j < 5 \<Longrightarrow> i' < 5 \<Longrightarrow> j' < 5 \<Longrightarrow>
     grid_set g i j s ! i' ! j' = (if i' = i \<and> j' = j then s else g ! i' ! j')"
  by (auto simp: grid_shape_def grid_set_def nth_list_update)

lemma no_player_set:
  assumes "no_player g" "s \<noteq> PLAYER_SYMBOL"
  shows "no_player (grid_set g i j s)"
proof -
  have sh: "grid_shape (grid_set g i j s)" using assms(1) by (simp add: no_player_def grid_shape_set)
  have "\<forall>row\<in>set (grid_set g i j s). PLAYER_SYMBOL \<notin> set row"
  proof
    fix row assume "row \<in> set (grid_set g i j s)"
    then have "row = (g ! i)[j := s] \<and> i < length g \<or> row \<in> set g"
      unfolding grid_set_def
      by (cases "i < length g") (auto simp: list_update_beyond dest!: subsetD [OF set_update_subset_insert])
    then show "PLAYER_SYMBOL \<notin> set row"
    proof
      assume r: "row = (g ! i)[j := s] \<and> i < length g"
      then have "PLAYER_SYMBOL \<notin> set (g ! i)" using assms(1) by (simp add: no_player_def)
      with r assms(2) show ?thesis
        by (auto dest!: subsetD [OF set_update_subset_insert])
    next
      assume "row \<in> set g" then show ?thesis using assms(1) by (simp add: no_player_def)
    qed
  qed
  with sh show ?thesis by (simp add: no_player_def)
qed

lemma no_player_nth: "no_player g \<Longrightarrow> i < 5 \<Longrightarrow> j < 5 \<Longrightarrow> g ! i ! j \<noteq> PLAYER_SYMBOL"
  by (metis grid_shape_def no_player_def nth_mem)

lemma no_player_iff:
  "no_player g = (grid_shape g \<and> (\<forall>i<5. \<forall>j<5. g ! i ! j \<noteq> PLAYER_SYMBOL))"
proof
  assume "no_player g"
  then show "grid_shape g \<and> (\<forall>i<5. \<forall>j<5. g ! i ! j \<noteq> PLAYER_SYMBOL)"
    using no_player_nth by (auto simp: no_player_def)
next
  assume a: "grid_shape g \<and> (\<forall>i<5. \<forall>j<5. g ! i ! j \<noteq> PLAYER_SYMBOL)"
  have "\<forall>row\<in>set g. PLAYER_SYMBOL \<notin> set row"
  proof (intro ballI notI)
    fix row assume r: "row \<in> set g" and p: "PLAYER_SYMBOL \<in> set row"
    from r obtain i where i: "i < length g" "g ! i = row" by (auto simp: in_set_conv_nth)
    from p obtain j where j: "j < length row" "row ! j = PLAYER_SYMBOL" by (auto simp: in_set_conv_nth)
    from a r i j have "i < 5" "j < 5" by (auto simp: grid_shape_def)
    with a i j show False by auto
  qed
  with a show "no_player g" by (simp add: no_player_def)
qed

lemma pinv_remove_player: "pinv g \<Longrightarrow> no_player (grid_set g 2 2 EMPTY_SYMBOL)"
  unfolding no_player_iff pinv_def
  by (auto simp: grid_shape_set grid_set_nth)

lemma no_player_put_player: "no_player g \<Longrightarrow> pinv (grid_set g 2 2 PLAYER_SYMBOL)"
  unfolding no_player_iff pinv_def
  by (auto simp: grid_shape_set grid_set_nth)

lemma pinv_set:
  assumes "pinv g" "s \<noteq> PLAYER_SYMBOL" "i < 5" "j < 5" "g ! i ! j \<noteq> PLAYER_SYMBOL"
  shows "pinv (grid_set g i j s)"
  using assms unfolding pinv_def
  by (auto simp: grid_shape_set grid_set_nth)

lemma no_player_shift_left: "no_player g \<Longrightarrow> no_player (map (\<lambda>row. drop 1 row @ [EMPTY_SYMBOL]) g)"
  by (auto simp: no_player_def grid_shape_def dest: in_set_dropD)

lemma no_player_shift_right: "no_player g \<Longrightarrow> no_player (map (\<lambda>row. EMPTY_SYMBOL # butlast row) g)"
  by (auto simp: no_player_def grid_shape_def dest: in_set_butlastD)

lemma no_player_shift_up:
  assumes "no_player g" "length row = 5" "PLAYER_SYMBOL \<notin> set row"
  shows "no_player ((tl g @ [last g])[4 := row])"
proof -
  from assms(1) have "length g = 5" by (simp add: no_player_def grid_shape_def)
  then obtain a b c d e where g: "g = [a, b, c, d, e]" by (rule length_5_explode)
  with assms show ?thesis by (simp add: no_player_def grid_shape_def)
qed

lemma no_player_shift_down:
  assumes "no_player g" "length row = 5" "PLAYER_SYMBOL \<notin> set row"
  shows "no_player ((hd g # butlast g)[0 := row])"
proof -
  from assms(1) have "length g = 5" by (simp add: no_player_def grid_shape_def)
  then obtain a b c d e where g: "g = [a, b, c, d, e]" by (rule length_5_explode)
  with assms show ?thesis by (simp add: no_player_def grid_shape_def)
qed

lemma mod4_cases: "(r :: nat) mod 4 = 0 \<or> r mod 4 = 1 \<or> r mod 4 = 2 \<or> r mod 4 = 3"
  by arith

lemma in_bounds_cat_draw: "in_bounds (cat_draw r1 r2)"
  using mod4_cases [of r2] by (auto simp: cat_draw_def in_bounds_def FIELD_SIZE_5)

lemma in_bounds_obstacle_draw: "in_bounds (obstacle_draw r1 r2)"
  by (simp add: obstacle_draw_def in_bounds_def FIELD_SIZE_5)

lemma generate_cats_loop_short:
  "length rng < 2 \<Longrightarrow>
     generate_cats_loop g n fd rng = (if g < n then None else Some (fd, rng))"
proof (cases rng)
  case Nil
  then show ?thesis by (simp add: generate_cats_loop.simps [of g n fd "[]"])
next
  case (Cons r rs)
  assume "length rng < 2"
  with Cons have "rs = []" by simp
  with Cons show ?thesis
    by (simp add: generate_cats_loop.simps [of g n fd "[r]"] choice_def)
qed

lemma generate_cats_loop_Cons:
  "generate_cats_loop g n fd (r1 # r2 # rest) =
     (if g < n then
        (if data (cell fd (fst (cat_draw r1 r2)) (snd (cat_draw r1 r2))) \<noteq> EMPTY_SYMBOL
         then generate_cats_loop g n fd rest
         else if manhattan (cell fd MIDDLE_POS MIDDLE_POS) (cat_draw r1 r2) < 2
         then generate_cats_loop g n fd rest
         else generate_cats_loop (g + 1) n
                (set_data fd (fst (cat_draw r1 r2)) (snd (cat_draw r1 r2)) CAT_SYMBOL) rest)
      else Some (fd, r1 # r2 # rest))"
  by (simp add: generate_cats_loop.simps [of g n fd "r1 # r2 # rest"] choice_def cat_draw_def
        FIELD_SIZE_5)

lemma generate_obstacles_loop_short:
  "length rng < 2 \<Longrightarrow>
     generate_obstacles_loop g n fd rng = (if g < n then None else Some (fd, rng))"
proof (cases rng)
  case Nil
  then show ?thesis by (simp add: generate_obstacles_loop.simps [of g n fd "[]"])
next
  case (Cons r rs)
  assume "length rng < 2"
  with Cons have "rs = []" by simp
  with Cons show ?thesis
    by (simp add: generate_obstacles_loop.simps [of g n fd "[r]"])
qed

lemma generate_obstacles_loop_Cons:
  "generate_obstacles_loop g n fd (r1 # r2 # rest) =
     (if g < n then
        (if data (cell fd (fst (obstacle_draw r1 r2)) (snd (obstacle_draw r1 r2))) \<noteq> EMPTY_SYMBOL
         then generate_obstacles_loop g n fd rest
         else generate_obstacles_loop (g + 1) n
                (set_data fd (fst (obstacle_draw r1 r2)) (snd (obstacle_draw r1 r2)) OBSTACLE_SYMBOL)
                rest)
      else Some (fd, r1 # r2 # rest))"
  by (simp add: generate_obstacles_loop.simps [of g n fd "r1 # r2 # rest"] obstacle_draw_def
        FIELD_SIZE_5)

lemma player_inv_well_shaped: "player_inv fd \<Longrightarrow> well_shaped fd"
  by (simp add: player_inv_def pinv_def well_shaped_symbols)

lemma player_inv_set_data:
  assumes "player_inv fd" "in_bounds (x, y)" "data (cell fd x y) \<noteq> PLAYER_SYMBOL"
    "s \<noteq> PLAYER_SYMBOL"
  shows "player_inv (set_data fd x y s)"
proof -
  from assms(2) have x: "nat x < 5" and y: "nat y < 5" by (auto simp: in_bounds_def FIELD_SIZE_5)
  from assms(1,2,3) have "symbols fd ! nat x ! nat y \<noteq> PLAYER_SYMBOL"
    by (simp add: data_cell player_inv_well_shaped)
  with assms(1,4) x y show ?thesis
    by (simp add: player_inv_def symbols_set_data' pinv_set)
qed

lemma generate_cats_loop_player_inv:
  "generate_cats_loop g n fd rng = Some (fd', rng') \<Longrightarrow> player_inv fd \<Longrightarrow> player_inv fd'"
proof (induction rng arbitrary: g fd rule: induct_list012)
  case 1
  then show ?case by (simp add: generate_cats_loop_short split: if_splits)
next
  case (2 r)
  then show ?case by (simp add: generate_cats_loop_short split: if_splits)
next
  case (3 r1 r2 rest)
  show ?case
  proof (cases "g < n")
    case False
    with "3.prems" show ?thesis by (simp add: generate_cats_loop_Cons)
  next
    case True
    let ?p = "cat_draw r1 r2"
    show ?thesis
    proof (cases "data (cell fd (fst ?p) (snd ?p)) \<noteq> EMPTY_SYMBOL
                  \<or> manhattan (cell fd MIDDLE_POS MIDDLE_POS) ?p < 2")
      case True
      with \<open>g < n\<close> "3.prems"(1) have "generate_cats_loop g n fd rest = Some (fd', rng')"
        by (auto simp: generate_cats_loop_Cons split: if_splits)
      from "3.IH"(1) [OF this "3.prems"(2)] show ?thesis .
    next
      case False
      with \<open>g < n\<close> "3.prems"(1)
      have r: "generate_cats_loop (g + 1) n (set_data fd (fst ?p) (snd ?p) CAT_SYMBOL) rest
                = Some (fd', rng')"
        by (auto simp: generate_cats_loop_Cons split: if_splits)
      from False have "data (cell fd (fst ?p) (snd ?p)) \<noteq> PLAYER_SYMBOL" by simp
      with "3.prems"(2) in_bounds_cat_draw [of r1 r2]
      have "player_inv (set_data fd (fst ?p) (snd ?p) CAT_SYMBOL)"
        by (intro player_inv_set_data) simp_all
      from "3.IH"(1) [OF r this] show ?thesis .
    qed
  qed
qed

lemma generate_obstacles_loop_player_inv:
  "generate_obstacles_loop g n fd rng = Some (fd', rng') \<Longrightarrow> player_inv fd \<Longrightarrow> player_inv fd'"
proof (induction rng arbitrary: g fd rule: induct_list012)
  case 1
  then show ?case by (simp add: generate_obstacles_loop_short split: if_splits)
next
  case (2 r)
  then show ?case by (simp add: generate_obstacles_loop_short split: if_splits)
next
  case (3 r1 r2 rest)
  show ?case
  proof (cases "g < n")
    case False
    with "3.prems" show ?thesis by (simp add: generate_obstacles_loop_Cons)
  next
    case True
    let ?p = "obstacle_draw r1 r2"
    show ?thesis
    proof (cases "data (cell fd (fst ?p) (snd ?p)) \<noteq> EMPTY_SYMBOL")
      case True
      with \<open>g < n\<close> "3.prems"(1) have "generate_obstacles_loop g n fd rest = Some (fd', rng')"
        by (auto simp: generate_obstacles_loop_Cons split: if_splits)
      from "3.IH"(1) [OF this "3.prems"(2)] show ?thesis .
    next
      case False
      with \<open>g < n\<close> "3.prems"(1)
      have r: "generate_obstacles_loop (g + 1) n (set_data fd (fst ?p) (snd ?p) OBSTACLE_SYMBOL) rest
                = Some (fd', rng')"
        by (auto simp: generate_obstacles_loop_Cons split: if_splits)
      from False have "data (cell fd (fst ?p) (snd ?p)) \<noteq> PLAYER_SYMBOL" by simp
      with "3.prems"(2) in_bounds_obstacle_draw [of r1 r2]
      have "player_inv (set_data fd (fst ?p) (snd ?p) OBSTACLE_SYMBOL)"
        by (intro player_inv_set_data) simp_all
      from "3.IH"(1) [OF r this] show ?thesis .
    qed
  qed
qed

lemma move_cat_player_inv:
  assumes "player_inv fd" "in_bounds (cat_row, cat_column)"
    "data (cell fd cat_row cat_column) = CAT_SYMBOL"
  shows "player_inv (move_cat cat_row cat_column fd)"
proof -
  let ?fd1 = "set_data fd cat_row cat_column EMPTY_SYMBOL"
  obtain tx ty where t: "move_cat_target cat_row cat_column fd = (tx, ty)"
    by (cases "move_cat_target cat_row cat_column fd")
  have w: "well_shaped fd" using assms(1) by (rule player_inv_well_shaped)
  from move_cat_target_cases [OF assms(2), of fd]
  have tb: "in_bounds (tx, ty)"
    and tc: "(tx, ty) = (cat_row, cat_column) \<or> data (cell fd tx ty) = EMPTY_SYMBOL"
    by (simp_all add: t)
  have np: "data (cell fd cat_row cat_column) \<noteq> PLAYER_SYMBOL" using assms(3) by simp
  have i1: "player_inv ?fd1"
    by (rule player_inv_set_data [OF assms(1) assms(2) np]) simp
  have "data (cell ?fd1 tx ty) = EMPTY_SYMBOL"
    unfolding cell_set_data [OF w assms(2) tb] using tc by auto
  then have np1: "data (cell ?fd1 tx ty) \<noteq> PLAYER_SYMBOL" by simp
  have "player_inv (set_data ?fd1 tx ty CAT_SYMBOL)"
    by (rule player_inv_set_data [OF i1 tb np1]) simp
  then show ?thesis by (simp add: move_cat_def Let_def t)
qed

lemma proceed_cats_scan_player_inv:
  "\<forall>p\<in>set ps. in_bounds p \<Longrightarrow> player_inv fd \<Longrightarrow> player_inv (proceed_cats_scan ps fd)"
proof (induction ps arbitrary: fd)
  case Nil
  then show ?case by simp
next
  case (Cons p ps)
  obtain row col where p: "p = (row, col)" by (cases p)
  with Cons.prems have b: "in_bounds (row, col)" by simp
  from Cons.prems have rest: "\<forall>p\<in>set ps. in_bounds p" by simp
  show ?case
  proof (cases "data (cell fd row col) = CAT_SYMBOL")
    case True
    have m: "player_inv (move_cat row col fd)"
      by (rule move_cat_player_inv [OF Cons.prems(2) b True])
    show ?thesis
    proof (cases "is_game_over (move_cat row col fd)")
      case True
      with m \<open>data (cell fd row col) = CAT_SYMBOL\<close> show ?thesis by (simp add: p)
    next
      case False
      with Cons.IH [OF rest m] \<open>data (cell fd row col) = CAT_SYMBOL\<close> show ?thesis
        by (simp add: p)
    qed
  next
    case False
    with Cons.IH [OF rest Cons.prems(2)] show ?thesis by (simp add: p)
  qed
qed

lemma set_py_range_5: "set (py_range 5) = {0..4}"
  by (simp add: py_range_def)

lemma set_scan_order: "p \<in> set scan_order \<longleftrightarrow> in_bounds p"
  by (cases p) (auto simp: scan_order_def FIELD_SIZE_5 in_bounds_def set_py_range_5)

lemma proceed_cats_turn_player_inv: "player_inv fd \<Longrightarrow> player_inv (proceed_cats_turn fd)"
  unfolding proceed_cats_turn_def
  by (rule proceed_cats_scan_player_inv) (simp_all add: set_scan_order)

lemma randint_range:
  "randint 0 (FIELD_SIZE - 1) rng = Some (v, rng') \<Longrightarrow> 0 \<le> v \<and> v < FIELD_SIZE"
  by (cases rng) (auto simp: FIELD_SIZE_5)

lemma no_player_field_set_data:
  "no_player (symbols fd) \<Longrightarrow> s \<noteq> PLAYER_SYMBOL \<Longrightarrow> no_player (symbols (set_data fd x y s))"
  by (simp add: symbols_set_data' no_player_set)

lemma place_edge_obstacles_no_player:
  "place_edge_obstacles n col fd rng = Some (fd', rng') \<Longrightarrow> no_player (symbols fd)
     \<Longrightarrow> no_player (symbols fd')"
proof (induction n arbitrary: fd rng)
  case 0
  then show ?case by simp
next
  case (Suc n)
  from Suc.prems(1) obtain random_row rng1 where
    r: "randint 0 (FIELD_SIZE - 1) rng = Some (random_row, rng1)"
    and rest: "place_edge_obstacles n col (set_data fd random_row col OBSTACLE_SYMBOL) rng1
                 = Some (fd', rng')"
    by (auto split: option.splits)
  from Suc.prems(2) have "no_player (symbols (set_data fd random_row col OBSTACLE_SYMBOL))"
    by (simp add: no_player_field_set_data)
  from Suc.IH [OF rest this] show ?case .
qed

lemma generate_row_obstacles_no_player:
  "generate_row_obstacles n result rng = Some (row, rng') \<Longrightarrow>
     PLAYER_SYMBOL \<notin> set (map data result) \<Longrightarrow>
     length row = length result \<and> PLAYER_SYMBOL \<notin> set (map data row)"
proof (induction n arbitrary: result rng)
  case 0
  then show ?case by simp
next
  case (Suc n)
  from Suc.prems(1) obtain i rng1 where
    rest: "generate_row_obstacles n (result[i := (result ! i)\<lparr>data := OBSTACLE_SYMBOL\<rparr>]) rng1
             = Some (row, rng')"
    by (auto split: option.splits)
  have "PLAYER_SYMBOL \<notin> set (map data (result[i := (result ! i)\<lparr>data := OBSTACLE_SYMBOL\<rparr>]))"
    using Suc.prems(2) by (auto simp: map_update dest!: subsetD [OF set_update_subset_insert])
  from Suc.IH [OF rest this] show ?case by simp
qed

lemma generate_row_no_player:
  assumes "generate_row row_index rng = Some (row, rng')"
  shows "length (map data row) = 5 \<and> PLAYER_SYMBOL \<notin> set (map data row)"
proof -
  have "PLAYER_SYMBOL \<notin> set (map data (map (\<lambda>col. Position row_index col EMPTY_SYMBOL) (py_range FIELD_SIZE)))"
    by (auto simp: Position_def)
  from generate_row_obstacles_no_player [OF assms [unfolded generate_row_def] this]
  show ?thesis by (simp add: FIELD_SIZE_5 py_range_5)
qed

lemma symbols_list_update: "symbols (fd[k := row]) = (symbols fd)[k := map data row]"
  by (simp add: symbols_def map_update)

lemma no_player_length: "no_player (symbols fd) \<Longrightarrow> length fd = 5"
  by (simp add: no_player_def grid_shape_def symbols_def)

lemma move_objects_left:
  "move_objects ''left'' fd rng =
     (case place_edge_obstacles 2 (FIELD_SIZE - 1)
             (shift_left (set_data fd MIDDLE_POS MIDDLE_POS EMPTY_SYMBOL)) rng of
        None \<Rightarrow> None
      | Some (fd1, rng1) \<Rightarrow> Some (set_data fd1 MIDDLE_POS MIDDLE_POS PLAYER_SYMBOL, rng1))"
  by (simp add: move_objects_def)

lemma move_objects_right:
  "move_objects ''right'' fd rng =
     (case place_edge_obstacles 2 0
             (shift_right (set_data fd MIDDLE_POS MIDDLE_POS EMPTY_SYMBOL)) rng of
        None \<Rightarrow> None
      | Some (fd1, rng1) \<Rightarrow> Some (set_data fd1 MIDDLE_POS MIDDLE_POS PLAYER_SYMBOL, rng1))"
  by (simp add: move_objects_def)

lemma move_objects_up:
  "move_objects ''up'' fd rng =
     (case generate_row (FIELD_SIZE - 1) rng of
        None \<Rightarrow> None
      | Some (new_row, rng1) \<Rightarrow>
          Some (set_data ((shift_up (set_data fd MIDDLE_POS MIDDLE_POS EMPTY_SYMBOL))
                           [nat (FIELD_SIZE - 1) := new_row])
                  MIDDLE_POS MIDDLE_POS PLAYER_SYMBOL, rng1))"
  by (simp add: move_objects_def split: option.splits)

lemma move_objects_down:
  "move_objects ''down'' fd rng =
     (case generate_row 0 rng of
        None \<Rightarrow> None
      | Some (new_row, rng1) \<Rightarrow>
          Some (set_data ((shift_down (set_data fd MIDDLE_POS MIDDLE_POS EMPTY_SYMBOL))
                           [0 := new_row])
                  MIDDLE_POS MIDDLE_POS PLAYER_SYMBOL, rng1))"
  by (simp add: move_objects_def split: option.splits)

lemma move_objects_other:
  "direction \<notin> {''left'', ''right'', ''up'', ''down''} \<Longrightarrow>
   move_objects direction fd rng =
     Some (set_data (set_data fd MIDDLE_POS MIDDLE_POS EMPTY_SYMBOL)
             MIDDLE_POS MIDDLE_POS PLAYER_SYMBOL, rng)"
  by (simp add: move_objects_def)

lemma move_objects_player_inv:
  assumes "move_objects direction fd rng = Some (fd', rng')" "player_inv fd"
  shows "player_inv fd'"
proof -
  let ?fd0 = "set_data fd MIDDLE_POS MIDDLE_POS EMPTY_SYMBOL"
  have n0: "no_player (symbols ?fd0)"
    using assms(2) by (simp add: player_inv_def symbols_set_data' MIDDLE_POS_2 pinv_remove_player)
  then have l0: "length ?fd0 = 5" by (rule no_player_length)
  have fin: "no_player (symbols fd1) \<Longrightarrow>
               player_inv (set_data fd1 MIDDLE_POS MIDDLE_POS PLAYER_SYMBOL)" for fd1
    by (simp add: player_inv_def symbols_set_data' MIDDLE_POS_2 no_player_put_player)
  consider "direction = ''left''" | "direction = ''right''" | "direction = ''up''"
    | "direction = ''down''" | "direction \<notin> {''left'', ''right'', ''up'', ''down''}"
    by blast
  then show ?thesis
  proof cases
    case 1
    with assms(1) obtain fd1 where
      p: "place_edge_obstacles 2 (FIELD_SIZE - 1) (shift_left ?fd0) rng = Some (fd1, rng')"
      and f: "fd' = set_data fd1 MIDDLE_POS MIDDLE_POS PLAYER_SYMBOL"
      by (auto simp: move_objects_left split: option.splits)
    have "no_player (symbols (shift_left ?fd0))"
      unfolding symbols_shift_left [OF l0] by (rule no_player_shift_left [OF n0])
    from place_edge_obstacles_no_player [OF p this] show ?thesis
      unfolding f by (rule fin)
  next
    case 2
    with assms(1) obtain fd1 where
      p: "place_edge_obstacles 2 0 (shift_right ?fd0) rng = Some (fd1, rng')"
      and f: "fd' = set_data fd1 MIDDLE_POS MIDDLE_POS PLAYER_SYMBOL"
      by (auto simp: move_objects_right split: option.splits)
    have "no_player (symbols (shift_right ?fd0))"
      unfolding symbols_shift_right [OF l0] by (rule no_player_shift_right [OF n0])
    from place_edge_obstacles_no_player [OF p this] show ?thesis
      unfolding f by (rule fin)
  next
    case 3
    with assms(1) obtain new_row where
      g: "generate_row (FIELD_SIZE - 1) rng = Some (new_row, rng')"
      and f: "fd' = set_data ((shift_up ?fd0)[nat (FIELD_SIZE - 1) := new_row])
                      MIDDLE_POS MIDDLE_POS PLAYER_SYMBOL"
      by (auto simp: move_objects_up split: option.splits)
    from generate_row_no_player [OF g]
    have "no_player ((tl (symbols ?fd0) @ [last (symbols ?fd0)])[4 := map data new_row])"
      by (intro no_player_shift_up [OF n0]; simp)
    then have "no_player (symbols ((shift_up ?fd0)[nat (FIELD_SIZE - 1) := new_row]))"
      by (simp add: symbols_list_update symbols_shift_up [OF l0] FIELD_SIZE_5)
    then show ?thesis unfolding f by (rule fin)
  next
    case 4
    with assms(1) obtain new_row where
      g: "generate_row 0 rng = Some (new_row, rng')"
      and f: "fd' = set_data ((shift_down ?fd0)[0 := new_row])
                      MIDDLE_POS MIDDLE_POS PLAYER_SYMBOL"
      by (auto simp: move_objects_down split: option.splits)
    from generate_row_no_player [OF g]
    have "no_player ((hd (symbols ?fd0) # butlast (symbols ?fd0))[0 := map data new_row])"
      by (intro no_player_shift_down [OF n0]; simp)
    then have "no_player (symbols ((shift_down ?fd0)[0 := new_row]))"
      by (simp add: symbols_list_update symbols_shift_down [OF l0])
    then show ?thesis unfolding f by (rule fin)
  next
    case 5
    with assms(1) have "fd' = set_data ?fd0 MIDDLE_POS MIDDLE_POS PLAYER_SYMBOL"
      by (simp add: move_objects_other)
    with n0 show ?thesis by (simp add: fin)
  qed
qed

lemma move_player_valid:
  assumes "direction \<in> {''left'', ''right'', ''up'', ''down''}"
  shows "move_player direction fd rng =
     (if data (cell fd (fst (direction_cell direction)) (snd (direction_cell direction)))
           = EMPTY_SYMBOL
      then (case move_objects (the (DIRECTIONS direction)) fd rng of
              None \<Rightarrow> None
            | Some (fd', rng') \<Rightarrow> Some (Inr (), fd', rng'))
      else Some (Inr (), fd, rng))"
proof -
  from assms consider "direction = ''left''" | "direction = ''right''" | "direction = ''up''"
    | "direction = ''down''" by blast
  then show ?thesis
  proof cases
    case 1 then show ?thesis by (simp add: move_player_def DIRECTIONS_def direction_cell_def)
  next
    case 2 then show ?thesis by (simp add: move_player_def DIRECTIONS_def direction_cell_def)
  next
    case 3 then show ?thesis by (simp add: move_player_def DIRECTIONS_def direction_cell_def)
  next
    case 4 then show ?thesis by (simp add: move_player_def DIRECTIONS_def direction_cell_def)
  qed
qed

lemma move_player_invalid:
  "direction \<notin> {''left'', ''right'', ''up'', ''down''} \<Longrightarrow>
     move_player direction fd rng = Some (Inl (ValueError ''invalid direction''), fd, rng)"
  by (simp add: move_player_def DIRECTIONS_def)

lemma move_player_player_inv:
  assumes "move_player direction fd rng = Some (outcome, fd', rng')" "player_inv fd"
  shows "player_inv fd'"
proof (cases "direction \<in> {''left'', ''right'', ''up'', ''down''}")
  case True
  from assms(1) have "fd' = fd \<or> (\<exists>opposite. move_objects opposite fd rng = Some (fd', rng'))"
    unfolding move_player_valid [OF True] by (auto split: if_splits option.splits)
  with assms(2) show ?thesis
    by (auto intro: move_objects_player_inv)
next
  case False
  with assms show ?thesis by (simp add: move_player_invalid)
qed

lemma player_inv_generate_clear: "player_inv generate_clear"
proof -
  have "symbols generate_clear =
      [[EMPTY_SYMBOL, EMPTY_SYMBOL, EMPTY_SYMBOL, EMPTY_SYMBOL, EMPTY_SYMBOL],
       [EMPTY_SYMBOL, EMPTY_SYMBOL, EMPTY_SYMBOL, EMPTY_SYMBOL, EMPTY_SYMBOL],
       [EMPTY_SYMBOL, EMPTY_SYMBOL, PLAYER_SYMBOL, EMPTY_SYMBOL, EMPTY_SYMBOL],
       [EMPTY_SYMBOL, EMPTY_SYMBOL, EMPTY_SYMBOL, EMPTY_SYMBOL, EMPTY_SYMBOL],
       [EMPTY_SYMBOL, EMPTY_SYMBOL, EMPTY_SYMBOL, EMPTY_SYMBOL, EMPTY_SYMBOL]]"
    by code_simp
  also have "\<dots> = grid_set (replicate 5 (replicate 5 EMPTY_SYMBOL)) 2 2 PLAYER_SYMBOL"
    by (simp add: grid_set_def eval_nat_numeral)
  finally have s: "symbols generate_clear
      = grid_set (replicate 5 (replicate 5 EMPTY_SYMBOL)) 2 2 PLAYER_SYMBOL" .
  have "no_player (replicate 5 (replicate 5 EMPTY_SYMBOL))"
    by (simp add: no_player_def grid_shape_def)
  then show ?thesis
    unfolding player_inv_def s by (rule no_player_put_player)
qed

lemma GameField_player_inv: "GameField rng = Some (fd, rng') \<Longrightarrow> player_inv fd"
  by (auto simp: GameField_def generate_cats_def generate_obstacles_def split: option.splits
      dest!: generate_cats_loop_player_inv [OF _ player_inv_generate_clear]
      dest: generate_obstacles_loop_player_inv)

lemma reachable_player_inv: "reachable fd \<Longrightarrow> player_inv fd"
proof (induction rule: reachable.induct)
  case (new_game rng fd rng')
  then show ?case by (rule GameField_player_inv)
next
  case (player_moved fd direction rng outcome fd' rng')
  from player_moved.hyps(2) player_moved.IH show ?case by (rule move_player_player_inv)
next
  case (cats_moved fd)
  then show ?case by (simp add: proceed_cats_turn_player_inv)
next
  case (cats_spawned fd number rng fd' rng')
  from cats_spawned.hyps(2) [unfolded generate_cats_def] cats_spawned.IH
  show ?case by (rule generate_cats_loop_player_inv)
qed

lemma filter_center: "filter (\<lambda>p. p = (2, 2)) scan_order = [(2, 2)]"
  by code_simp

lemma player_inv_player_cells:
  assumes "player_inv fd"
  shows "player_cells fd = [(MIDDLE_POS, MIDDLE_POS)]"
proof -
  have w: "well_shaped fd" using assms by (rule player_inv_well_shaped)
  have "filter (\<lambda>(r, c). data (cell fd r c) = PLAYER_SYMBOL) scan_order
        = filter (\<lambda>p. p = (2, 2)) scan_order"
  proof (rule filter_cong [OF refl])
    fix p assume "p \<in> set scan_order"
    then have b: "in_bounds p" by (simp add: set_scan_order)
    obtain r c where p: "p = (r, c)" by (cases p)
    from b p have n: "nat r < 5" "nat c < 5" "0 \<le> r" "0 \<le> c"
      by (auto simp: in_bounds_def FIELD_SIZE_5)
    from assms n have "(symbols fd ! nat r ! nat c = PLAYER_SYMBOL) = (nat r = 2 \<and> nat c = 2)"
      by (simp add: player_inv_def pinv_def)
    with n have "(data (cell fd r c) = PLAYER_SYMBOL) = (r = 2 \<and> c = 2)"
      using data_cell [OF w b [unfolded p]] by auto
    then show "(case p of (r, c) \<Rightarrow> data (cell fd r c) = PLAYER_SYMBOL) = (p = (2, 2))"
      by (simp add: p)
  qed
  then show ?thesis by (simp add: player_cells_def filter_center MIDDLE_POS_2)
qed

text \<open>
  Claim C1. In every field a game can reach (a new game, then any sequence of
  \<^verbatim>\<open>move_player\<close>, \<^verbatim>\<open>proceed_cats_turn\<close> and \<^verbatim>\<open>generate_cats\<close>
  calls), the coordinates that hold the player symbol are the centre and only the centre,
  and the field keeps its \<open>FIELD_SIZE\<close> rows and columns: no spawn, shift or cat move
  writes over the player's cell or puts a second player on the field.
\<close>

theorem player_always_at_center:
  assumes "reachable fd"
  shows "player_cells fd = [(MIDDLE_POS, MIDDLE_POS)] \<and> well_shaped fd"
  using reachable_player_inv [OF assms]
  by (simp add: player_inv_player_cells player_inv_well_shaped)

lemma new_game_example:
  "GameField [2, 0, 2, 4, 4, 2, 3, 0] \<noteq> None"
  by code_simp

theorem player_always_at_center_witness:
  "player_cells (proceed_cats_turn (fst (the (GameField [2, 0, 2, 4, 4, 2, 3, 0]))))
     = [(MIDDLE_POS, MIDDLE_POS)]"
proof -
  from new_game_example obtain fd rng' where g: "GameField [2, 0, 2, 4, 4, 2, 3, 0] = Some (fd, rng')"
    by auto
  have "reachable (proceed_cats_turn fd)"
    by (rule reachable.cats_moved [OF reachable.new_game [OF g]])
  from player_always_at_center [OF this] show ?thesis by (simp add: g)
qed

section \<open>Stored coordinates after a shift\<close>

text \<open>
  Claim C5. The claim fails on the code for the shifts \<^verbatim>\<open>'up'\<close> and
  \<^verbatim>\<open>'down'\<close>: their inner loop runs over \<^verbatim>\<open>range(FIELD_SIZE - 1)\<close>, so the
  cells of the last column keep the row number they had before the shift. On the field of
  \<^verbatim>\<open>generate_clear\<close>, where every cell stores its own place, the player's move
  \<^verbatim>\<open>'down'\<close> shifts the field up and leaves the cell at row 0, column 4 with the
  stored row 1.
\<close>

theorem shift_up_stale_row:
  "coords_consistent generate_clear \<and>
   (case move_player ''down'' generate_clear [0] of
      Some (Inr u, fd', rng') \<Rightarrow> x_coord (cell fd' 0 4) = 1 \<and> \<not> coords_consistent fd'
    | _ \<Rightarrow> False)"
  by code_simp

section \<open>Pursuit and the stored centre\<close>

text \<open>
  The loop of \<^verbatim>\<open>move_cat\<close> keeps the first candidate of least distance, as the
  distance is measured from the coordinates stored in the centre cell. While these are the
  coordinates of the centre, the cell chosen is the cat's own or a candidate strictly
  closer to the centre, the first of the closest ones in the order left, right, up, down.
\<close>

lemma move_cat_loop_step':
  "(\<not> (candidate fd q \<and> stored_distance fd q < d)
      \<and> move_cat_loop fd (q # ps) (d, p) = move_cat_loop fd ps (d, p))
   \<or> (candidate fd q \<and> stored_distance fd q < d
      \<and> move_cat_loop fd (q # ps) (d, p) = move_cat_loop fd ps (stored_distance fd q, q))"
  by (simp add: Let_def candidate_def in_bounds_def stored_distance_def)

lemma move_cat_loop_first_minimum:
  "move_cat_loop fd ps (d, p) = (d', p') \<Longrightarrow>
     d' \<le> d
     \<and> (\<forall>q\<in>set ps. candidate fd q \<longrightarrow> d' \<le> stored_distance fd q)
     \<and> ((p' = p \<and> d' = d)
        \<or> (\<exists>as bs. ps = as @ p' # bs \<and> candidate fd p' \<and> d' = stored_distance fd p' \<and> d' < d
              \<and> (\<forall>q\<in>set as. candidate fd q \<longrightarrow> d' < stored_distance fd q)))"
proof (induction ps arbitrary: d p)
  case Nil
  then show ?case by simp
next
  case (Cons q ps)
  from move_cat_loop_step' [of fd q d ps p] show ?case
  proof (elim disjE conjE)
    assume skip: "\<not> (candidate fd q \<and> stored_distance fd q < d)"
      and eq: "move_cat_loop fd (q # ps) (d, p) = move_cat_loop fd ps (d, p)"
    from eq Cons.prems have "move_cat_loop fd ps (d, p) = (d', p')" by simp
    note ih = Cons.IH [OF this]
    from ih have le: "d' \<le> d" by simp
    from skip le have qd: "candidate fd q \<longrightarrow> d' \<le> stored_distance fd q" by auto
    from ih consider "p' = p \<and> d' = d"
      | as bs where "ps = as @ p' # bs" "candidate fd p'" "d' = stored_distance fd p'" "d' < d"
          "\<forall>q\<in>set as. candidate fd q \<longrightarrow> d' < stored_distance fd q"
      by blast
    then have "(p' = p \<and> d' = d)
        \<or> (\<exists>as bs. q # ps = as @ p' # bs \<and> candidate fd p' \<and> d' = stored_distance fd p' \<and> d' < d
              \<and> (\<forall>q\<in>set as. candidate fd q \<longrightarrow> d' < stored_distance fd q))"
    proof cases
      case 1
      then show ?thesis by simp
    next
      case (2 as bs)
      from 2 skip have "\<forall>r\<in>set (q # as). candidate fd r \<longrightarrow> d' < stored_distance fd r"
        by auto
      with 2 have "q # ps = (q # as) @ p' # bs \<and> candidate fd p' \<and> d' = stored_distance fd p'
          \<and> d' < d \<and> (\<forall>r\<in>set (q # as). candidate fd r \<longrightarrow> d' < stored_distance fd r)"
        by simp
      then show ?thesis by blast
    qed
    with ih le qd show ?thesis by simp
  next
    assume cq: "candidate fd q" and lt: "stored_distance fd q < d"
      and eq: "move_cat_loop fd (q # ps) (d, p) = move_cat_loop fd ps (stored_distance fd q, q)"
    from eq Cons.prems have "move_cat_loop fd ps (stored_distance fd q, q) = (d', p')" by simp
    note ih = Cons.IH [OF this]
    from ih have le: "d' \<le> stored_distance fd q" by simp
    from ih consider "p' = q \<and> d' = stored_distance fd q"
      | as bs where "ps = as @ p' # bs" "candidate fd p'" "d' = stored_distance fd p'"
          "d' < stored_distance fd q"
          "\<forall>q\<in>set as. candidate fd q \<longrightarrow> d' < stored_distance fd q"
      by blast
    then have "\<exists>as bs. q # ps = as @ p' # bs \<and> candidate fd p' \<and> d' = stored_distance fd p' \<and> d' < d
              \<and> (\<forall>q\<in>set as. candidate fd q \<longrightarrow> d' < stored_distance fd q)"
    proof cases
      case 1
      with cq lt have "q # ps = [] @ p' # ps \<and> candidate fd p' \<and> d' = stored_distance fd p'
          \<and> d' < d \<and> (\<forall>r\<in>set []. candidate fd r \<longrightarrow> d' < stored_distance fd r)"
        by simp
      then show ?thesis by blast
    next
      case (2 as bs)
      from 2 lt have "q # ps = (q # as) @ p' # bs \<and> candidate fd p' \<and> d' = stored_distance fd p'
          \<and> d' < d \<and> (\<forall>r\<in>set (q # as). candidate fd r \<longrightarrow> d' < stored_distance fd r)"
        by simp
      then show ?thesis by blast
    qed
    with ih le lt show ?thesis by simp
  qed
qed

lemma stored_distance_true_centre:
  "x_coord (cell fd MIDDLE_POS MIDDLE_POS) = MIDDLE_POS \<Longrightarrow>
   y_coord (cell fd MIDDLE_POS MIDDLE_POS) = MIDDLE_POS \<Longrightarrow>
     stored_distance fd q = center_distance q"
  by (simp add: stored_distance_def manhattan_def center_distance_def)

lemma pursuit_with_true_centre:
  assumes "x_coord (cell fd MIDDLE_POS MIDDLE_POS) = MIDDLE_POS"
    and "y_coord (cell fd MIDDLE_POS MIDDLE_POS) = MIDDLE_POS"
  shows "(\<forall>q\<in>set (tl (positions_to_check cat_row cat_column)). candidate fd q \<longrightarrow>
            center_distance (move_cat_target cat_row cat_column fd) \<le> center_distance q)
     \<and> (move_cat_target cat_row cat_column fd = (cat_row, cat_column)
        \<or> (\<exists>as bs. tl (positions_to_check cat_row cat_column)
                      = as @ move_cat_target cat_row cat_column fd # bs
              \<and> candidate fd (move_cat_target cat_row cat_column fd)
              \<and> center_distance (move_cat_target cat_row cat_column fd)
                  < center_distance (cat_row, cat_column)
              \<and> (\<forall>q\<in>set as. candidate fd q \<longrightarrow>
                    center_distance (move_cat_target cat_row cat_column fd)
                      < center_distance q)))"
proof -
  let ?ps = "tl (positions_to_check cat_row cat_column)"
  let ?d = "stored_distance fd (cat_row, cat_column)"
  obtain d' p' where r: "move_cat_loop fd ?ps (?d, (cat_row, cat_column)) = (d', p')"
    by (cases "move_cat_loop fd ?ps (?d, (cat_row, cat_column))")
  have t: "move_cat_target cat_row cat_column fd = p'"
    by (simp only: move_cat_target_def Let_def hd_positions_to_check
          r [unfolded stored_distance_def] snd_conv)
  note sd = stored_distance_true_centre [OF assms]
  from move_cat_loop_first_minimum [OF r] have
    m: "\<forall>q\<in>set ?ps. candidate fd q \<longrightarrow> d' \<le> center_distance q"
    and c: "(p' = (cat_row, cat_column) \<and> d' = center_distance (cat_row, cat_column))
        \<or> (\<exists>as bs. ?ps = as @ p' # bs \<and> candidate fd p' \<and> d' = center_distance p'
              \<and> d' < center_distance (cat_row, cat_column)
              \<and> (\<forall>q\<in>set as. candidate fd q \<longrightarrow> d' < center_distance q))"
    unfolding sd by blast+
  from c have dp: "d' = center_distance p'" by auto
  from m c show ?thesis unfolding t dp by blast
qed

text \<open>
  Claim C6. The claim fails on the code in reachable fields: \<^verbatim>\<open>move_cat\<close>
  measures distances from the coordinates stored in the centre cell, and the stale row
  numbers that the vertical shifts leave in the last column reach the centre cell after
  two horizontal shifts; from then on the cats pursue a cell that is not the centre. In
  the game below (a new game, then the moves down, right, right, none of which ends the
  game) the centre cell stores row 3; the next move right is blocked by an obstacle, the
  first cat the scan finds is at (2, 4), at distance 2 from the centre, and
  \<^verbatim>\<open>move_cat\<close> sends it to (3, 4), at distance 3.
\<close>

theorem move_cat_moves_away:
  "case proceed_messages [''/newgame'', ''/down'', ''/right'', ''/right'']
          generate_clear [2, 0, 2, 4, 4, 2, 3, 0, 4, 0, 2, 3, 2, 1, 2, 0, 4, 2, 3] of
     Some (Inr replies, fd, rng) \<Rightarrow>
       \<not> is_game_over fd
       \<and> x_coord (cell fd MIDDLE_POS MIDDLE_POS) = 3
       \<and> data (cell fd 2 4) = CAT_SYMBOL
       \<and> move_player ''right'' fd rng = Some (Inr (), fd, rng)
       \<and> hd (move_cat_calls scan_order fd) = (2, 4)
       \<and> move_cat_target 2 4 fd = (3, 4)
       \<and> center_distance (2, 4) = 2 \<and> center_distance (3, 4) = 3
   | _ \<Rightarrow> False"
  by code_simp

section \<open>The turn: blocked moves and the spawn of a cat\<close>

lemma cells_symbols: "cells fd = concat (symbols fd)"
  by (simp add: cells_def symbols_def map_concat)

lemma count_list_concat:
  "count_list (concat g) a = sum_list (map (\<lambda>row. count_list row a) g)"
  by (induction g) simp_all

lemma count_list_update:
  "j < length xs \<Longrightarrow>
     count_list (xs[j := s]) a + (if xs ! j = a then 1 else 0)
       = count_list xs a + (if s = a then 1 else 0)"
proof (induction xs arbitrary: j)
  case Nil
  then show ?case by simp
next
  case (Cons x xs)
  show ?case
  proof (cases j)
    case 0
    then show ?thesis by simp
  next
    case (Suc k)
    with Cons.prems have "k < length xs" by simp
    from Cons.IH [OF this] Suc show ?thesis by (auto split: if_splits)
  qed
qed

lemma sum_list_update_nat:
  "i < length g \<Longrightarrow>
     sum_list (map f (g[i := v])) + f (g ! i) = sum_list (map f g) + (f v :: nat)"
proof (induction g arbitrary: i)
  case Nil
  then show ?case by simp
next
  case (Cons r g)
  then show ?case by (cases i) auto
qed

lemma count_grid_set:
  assumes "grid_shape g" "i < 5" "j < 5"
  shows "count_list (concat (grid_set g i j s)) a + (if g ! i ! j = a then 1 else 0)
           = count_list (concat g) a + (if s = a then 1 else 0)"
proof -
  from assms have i: "i < length g" and j: "j < length (g ! i)"
    by (simp_all add: grid_shape_def)
  from sum_list_update_nat [OF i, of "\<lambda>row. count_list row a" "(g ! i)[j := s]"]
       count_list_update [OF j, of s a]
  show ?thesis
    by (simp add: count_list_concat grid_set_def)
qed

lemma count_set_data:
  assumes "well_shaped fd" "in_bounds (x, y)"
  shows "count_list (cells (set_data fd x y s)) a + (if data (cell fd x y) = a then 1 else 0)
           = count_list (cells fd) a + (if s = a then 1 else 0)"
proof -
  from assms(2) have n: "nat x < 5" "nat y < 5" by (auto simp: in_bounds_def FIELD_SIZE_5)
  from assms(1) have g: "grid_shape (symbols fd)" by (simp add: well_shaped_symbols)
  from count_grid_set [OF g n, of s a] show ?thesis
    by (simp add: cells_symbols symbols_set_data' data_cell [OF assms])
qed














section \<open>Placing obstacles\<close>

lemma obstacle_draws_in_bounds: "p \<in> set (obstacle_draws rng) \<Longrightarrow> in_bounds p"
  by (induction rng rule: induct_list012) (auto simp: in_bounds_obstacle_draw)

lemma generate_obstacles_loop_places:
  "generate_obstacles_loop g n fd rng = Some (fd', rng') \<Longrightarrow> well_shaped fd \<Longrightarrow> g \<le> n \<Longrightarrow>
     well_shaped fd'
     \<and> count_list (cells fd') OBSTACLE_SYMBOL + g = count_list (cells fd) OBSTACLE_SYMBOL + n
     \<and> (\<forall>x y. in_bounds (x, y) \<longrightarrow>
           cell fd' x y = cell fd x y
           \<or> (data (cell fd x y) = EMPTY_SYMBOL
              \<and> cell fd' x y = (cell fd x y)\<lparr>data := OBSTACLE_SYMBOL\<rparr>))"
proof (induction rng arbitrary: g fd rule: induct_list012)
  case 1
  then show ?case by (simp add: generate_obstacles_loop_short split: if_splits)
next
  case (2 r)
  then show ?case by (simp add: generate_obstacles_loop_short split: if_splits)
next
  case (3 r1 r2 rest)
  show ?case
  proof (cases "g < n")
    case False
    with "3.prems" show ?thesis by (simp add: generate_obstacles_loop_Cons)
  next
    case True
    obtain px py where p: "obstacle_draw r1 r2 = (px, py)" by (cases "obstacle_draw r1 r2")
    have b: "in_bounds (px, py)" using in_bounds_obstacle_draw [of r1 r2] by (simp add: p)
    show ?thesis
    proof (cases "data (cell fd px py) \<noteq> EMPTY_SYMBOL")
      case True
      with \<open>g < n\<close> "3.prems"(1) have "generate_obstacles_loop g n fd rest = Some (fd', rng')"
        by (simp add: generate_obstacles_loop_Cons p)
      from "3.IH"(1) [OF this "3.prems"(2) "3.prems"(3)] show ?thesis .
    next
      case False
      let ?fd1 = "set_data fd px py OBSTACLE_SYMBOL"
      from False \<open>g < n\<close> "3.prems"(1)
      have r: "generate_obstacles_loop (g + 1) n ?fd1 rest = Some (fd', rng')"
        by (simp add: generate_obstacles_loop_Cons p)
      have w: "well_shaped ?fd1" using "3.prems"(2) by (rule well_shaped_set_data)
      from \<open>g < n\<close> have le: "g + 1 \<le> n" by simp
      from False count_set_data [OF "3.prems"(2) b, of OBSTACLE_SYMBOL OBSTACLE_SYMBOL]
      have c: "count_list (cells ?fd1) OBSTACLE_SYMBOL = count_list (cells fd) OBSTACLE_SYMBOL + 1"
        by simp
      note ih = "3.IH"(1) [OF r w le]
      have fr: "cell fd' x y = cell fd x y
           \<or> (data (cell fd x y) = EMPTY_SYMBOL
              \<and> cell fd' x y = (cell fd x y)\<lparr>data := OBSTACLE_SYMBOL\<rparr>)"
        if xy: "in_bounds (x, y)" for x y
      proof -
        from ih xy have i: "cell fd' x y = cell ?fd1 x y
           \<or> (data (cell ?fd1 x y) = EMPTY_SYMBOL
              \<and> cell fd' x y = (cell ?fd1 x y)\<lparr>data := OBSTACLE_SYMBOL\<rparr>)"
          by blast
        have s: "cell ?fd1 x y = (if x = px \<and> y = py then (cell fd px py)\<lparr>data := OBSTACLE_SYMBOL\<rparr>
                                  else cell fd x y)"
          by (rule cell_set_data [OF "3.prems"(2) b xy])
        show ?thesis
        proof (cases "x = px \<and> y = py")
          case True
          with i s False show ?thesis by auto
        next
          case False
          with i s show ?thesis by auto
        qed
      qed
      from ih c fr show ?thesis by simp
    qed
  qed
qed

lemma empty_at_set_data:
  assumes "well_shaped fd" "in_bounds p" "in_bounds q"
  shows "empty_at (set_data fd (fst p) (snd p) OBSTACLE_SYMBOL) q \<longleftrightarrow> empty_at fd q \<and> q \<noteq> p"
proof -
  have "cell (set_data fd (fst p) (snd p) OBSTACLE_SYMBOL) (fst q) (snd q)
          = (if fst q = fst p \<and> snd q = snd p
             then (cell fd (fst p) (snd p))\<lparr>data := OBSTACLE_SYMBOL\<rparr>
             else cell fd (fst q) (snd q))"
    using assms by (intro cell_set_data; simp)
  then show ?thesis by (auto simp: empty_at_def prod_eq_iff)
qed

lemma generate_obstacles_loop_returns:
  "well_shaped fd \<Longrightarrow>
     generate_obstacles_loop g n fd rng \<noteq> None
       \<longleftrightarrow> n - g \<le> card {p \<in> set (obstacle_draws rng). empty_at fd p}"
proof (induction rng arbitrary: g fd rule: induct_list012)
  case 1
  then show ?case by (auto simp: generate_obstacles_loop_short)
next
  case (2 r)
  then show ?case by (auto simp: generate_obstacles_loop_short)
next
  case (3 r1 r2 rest)
  let ?p = "obstacle_draw r1 r2"
  let ?A = "{q \<in> set (obstacle_draws rest). empty_at fd q}"
  have fin: "finite ?A" by simp
  show ?case
  proof (cases "g < n")
    case False
    then show ?thesis by (simp add: generate_obstacles_loop_Cons)
  next
    case True
    show ?thesis
    proof (cases "empty_at fd ?p")
      case False
      then have l: "generate_obstacles_loop g n fd (r1 # r2 # rest)
                  = generate_obstacles_loop g n fd rest"
        using True by (simp add: generate_obstacles_loop_Cons empty_at_def)
      from False have "{q \<in> set (obstacle_draws (r1 # r2 # rest)). empty_at fd q} = ?A"
        by auto
      with "3.IH"(1) [OF "3.prems", of g] l show ?thesis by simp
    next
      case e: True
      let ?fd1 = "set_data fd (fst ?p) (snd ?p) OBSTACLE_SYMBOL"
      have l: "generate_obstacles_loop g n fd (r1 # r2 # rest)
                  = generate_obstacles_loop (g + 1) n ?fd1 rest"
        using True e by (simp add: generate_obstacles_loop_Cons empty_at_def)
      have w: "well_shaped ?fd1" using "3.prems" by (rule well_shaped_set_data)
      have s1: "{q \<in> set (obstacle_draws rest). empty_at ?fd1 q} = ?A - {?p}"
        using empty_at_set_data [OF "3.prems" in_bounds_obstacle_draw [of r1 r2]]
        by (auto dest: obstacle_draws_in_bounds)
      have s2: "{q \<in> set (obstacle_draws (r1 # r2 # rest)). empty_at fd q}
                       = insert ?p (?A - {?p})"
        using e by auto
      have c: "card (insert ?p (?A - {?p})) = Suc (card (?A - {?p}))"
        by (rule card_insert_disjoint) (use fin in auto)
      have ih: "generate_obstacles_loop (g + 1) n ?fd1 rest \<noteq> None
                  \<longleftrightarrow> n - (g + 1) \<le> card (?A - {?p})"
        using "3.IH"(1) [OF w, of "g + 1"] unfolding s1 .
      show ?thesis
        unfolding l ih s2 c using True by arith
    qed
  qed
qed

text \<open>
  Claim C8, as amended. \<^verbatim>\<open>generate_obstacles\<close> tries positions anywhere within
  the bounds of the field, edge rows and columns included. It returns exactly when the
  draws hit at least as many different cells that are empty at the start as obstacles are
  requested; the field it returns has exactly the requested number of obstacles more, and
  every cell that differs from the field before held the empty symbol and now holds the
  obstacle symbol.
\<close>

theorem generate_obstacles_places:
  assumes "well_shaped fd"
  shows "(generate_obstacles n fd rng \<noteq> None
            \<longleftrightarrow> n \<le> card {p \<in> set (obstacle_draws rng). empty_at fd p})
     \<and> (\<forall>p \<in> set (obstacle_draws rng). in_bounds p)
     \<and> (\<forall>fd' rng'. generate_obstacles n fd rng = Some (fd', rng') \<longrightarrow>
           well_shaped fd'
           \<and> count_list (cells fd') OBSTACLE_SYMBOL = count_list (cells fd) OBSTACLE_SYMBOL + n
           \<and> (\<forall>x y. in_bounds (x, y) \<longrightarrow>
                 cell fd' x y = cell fd x y
                 \<or> (data (cell fd x y) = EMPTY_SYMBOL
                    \<and> cell fd' x y = (cell fd x y)\<lparr>data := OBSTACLE_SYMBOL\<rparr>)))"
proof (intro conjI allI impI ballI)
  show "generate_obstacles n fd rng \<noteq> None
            \<longleftrightarrow> n \<le> card {p \<in> set (obstacle_draws rng). empty_at fd p}"
    using generate_obstacles_loop_returns [OF assms, of 0 n rng]
    by (simp add: generate_obstacles_def)
next
  fix p assume "p \<in> set (obstacle_draws rng)"
  then show "in_bounds p" by (rule obstacle_draws_in_bounds)
next
  fix fd' rng'
  assume "generate_obstacles n fd rng = Some (fd', rng')"
  then have g: "generate_obstacles_loop 0 n fd rng = Some (fd', rng')"
    by (simp add: generate_obstacles_def)
  note r = generate_obstacles_loop_places [OF g assms]
  from r show "well_shaped fd'" by simp
  from r show "count_list (cells fd') OBSTACLE_SYMBOL = count_list (cells fd) OBSTACLE_SYMBOL + n"
    by simp
  fix x y assume "in_bounds (x, y)"
  with r show "cell fd' x y = cell fd x y
                 \<or> (data (cell fd x y) = EMPTY_SYMBOL
                    \<and> cell fd' x y = (cell fd x y)\<lparr>data := OBSTACLE_SYMBOL\<rparr>)"
    by simp
qed

lemma generate_obstacles_example:
  "well_shaped generate_clear
   \<and> generate_obstacles 3 generate_clear [1, 1, 2, 2, 3, 3, 4, 4] \<noteq> None
   \<and> count_list (cells generate_clear) OBSTACLE_SYMBOL = 0"
  by code_simp

text \<open>
  Claim C8, the amended statement for three obstacles on the field of
  \<^verbatim>\<open>generate_clear\<close>.
\<close>

theorem generate_obstacles_places_witness:
  "3 \<le> card {p \<in> set (obstacle_draws [1, 1, 2, 2, 3, 3, 4, 4]). empty_at generate_clear p}
   \<and> count_list (cells (fst (the (generate_obstacles 3 generate_clear [1, 1, 2, 2, 3, 3, 4, 4]))))
        OBSTACLE_SYMBOL = 3"
proof -
  from generate_obstacles_example have w: "well_shaped generate_clear" by simp
  from generate_obstacles_example obtain fd' rng' where
    g: "generate_obstacles 3 generate_clear [1, 1, 2, 2, 3, 3, 4, 4] = Some (fd', rng')"
    by auto
  from generate_obstacles_places [OF w, of 3 "[1, 1, 2, 2, 3, 3, 4, 4]"] g generate_obstacles_example
  show ?thesis by simp
qed

text \<open>
  Claim C8 as stated fails: both coordinates come from
  \<^verbatim>\<open>randint(0, FIELD_SIZE - 1)\<close>, and with the draws 0, 0 the obstacle is placed in the
  corner (0, 0), which is not an interior coordinate.
\<close>

theorem obstacle_on_edge:
  "data (cell generate_clear 0 0) = EMPTY_SYMBOL
   \<and> generate_obstacles 1 generate_clear [0, 0]
       = Some (set_data generate_clear 0 0 OBSTACLE_SYMBOL, [])
   \<and> \<not> interior (0, 0)"
  by code_simp

section \<open>The scan of the cats\<close>

lemma move_cat_calls_subset: "set (move_cat_calls ps fd) \<subseteq> set ps"
proof (induction ps arbitrary: fd)
  case Nil
  then show ?case by simp
next
  case (Cons p ps)
  obtain row col where p: "p = (row, col)" by (cases p)
  from Cons.IH [of fd] Cons.IH [of "move_cat row col fd"] show ?case
    by (auto simp: p Let_def)
qed

lemma move_cat_calls_sorted:
  "sorted_wrt R ps \<Longrightarrow> sorted_wrt R (move_cat_calls ps fd)"
proof (induction ps arbitrary: fd)
  case Nil
  then show ?case by simp
next
  case (Cons p ps)
  obtain row col where p: "p = (row, col)" by (cases p)
  from Cons.prems have r: "sorted_wrt R ps" and a: "\<forall>q\<in>set ps. R (row, col) q"
    by (simp_all add: p)
  from a move_cat_calls_subset [of ps "move_cat row col fd"]
  have "\<forall>q\<in>set (move_cat_calls ps (move_cat row col fd)). R (row, col) q" by blast
  with Cons.IH [OF r, of fd] Cons.IH [OF r, of "move_cat row col fd"] show ?case
    by (simp add: p Let_def)
qed

lemma proceed_cats_scan_calls:
  "proceed_cats_scan ps fd = foldl (\<lambda>fd (row, col). move_cat row col fd) fd (move_cat_calls ps fd)"
proof (induction ps arbitrary: fd)
  case Nil
  then show ?case by simp
next
  case (Cons p ps)
  obtain row col where p: "p = (row, col)" by (cases p)
  from Cons.IH [of fd] Cons.IH [of "move_cat row col fd"] show ?case
    by (simp add: p Let_def)
qed

lemma cats_at_calls_scan: "cats_at_calls (move_cat_calls ps fd) fd"
proof (induction ps arbitrary: fd)
  case Nil
  then show ?case by simp
next
  case (Cons p ps)
  obtain row col where p: "p = (row, col)" by (cases p)
  from Cons.IH [of fd] Cons.IH [of "move_cat row col fd"] show ?case
    by (simp add: p Let_def)
qed

lemma scan_order_sorted: "sorted_wrt row_major_less scan_order"
  by code_simp

lemma cat_found_later:
  "data (cell fd (fst t) (snd t)) = CAT_SYMBOL \<Longrightarrow> t \<in> set ps \<Longrightarrow> well_shaped fd \<Longrightarrow>
   \<forall>p\<in>set ps. in_bounds p \<Longrightarrow>
     t \<in> set (move_cat_calls ps fd) \<or> is_game_over (proceed_cats_scan ps fd)"
proof (induction ps arbitrary: fd)
  case Nil
  then show ?case by simp
next
  case (Cons q ps)
  obtain row col where q: "q = (row, col)" by (cases q)
  from Cons.prems(4) have qb: "in_bounds (row, col)" and rest: "\<forall>p\<in>set ps. in_bounds p"
    by (simp_all add: q)
  from Cons.prems(2,4) have tb: "in_bounds (fst t, snd t)" by auto
  show ?case
  proof (cases "data (cell fd row col) = CAT_SYMBOL")
    case False
    with Cons.prems(1) have "t \<noteq> q" by (auto simp: q)
    with Cons.prems(2) have "t \<in> set ps" by simp
    from Cons.IH [OF Cons.prems(1) this Cons.prems(3) rest] False show ?thesis
      by (simp add: q)
  next
    case True
    let ?fd' = "move_cat row col fd"
    show ?thesis
    proof (cases "is_game_over ?fd'")
      case True
      with \<open>data (cell fd row col) = CAT_SYMBOL\<close> show ?thesis by (simp add: q)
    next
      case False
      show ?thesis
      proof (cases "t = q")
        case True
        with \<open>data (cell fd row col) = CAT_SYMBOL\<close> False show ?thesis by (simp add: q)
      next
        case tq: False
        with Cons.prems(2) have m: "t \<in> set ps" by simp
        from tq have ne: "(fst t, snd t) \<noteq> (row, col)" by (simp add: q prod_eq_iff)
        have "cell ?fd' (fst t) (snd t) =
           (if (fst t, snd t) = move_cat_target row col fd
              then (cell fd (fst t) (snd t))\<lparr>data := CAT_SYMBOL\<rparr>
            else if (fst t, snd t) = (row, col)
              then (cell fd (fst t) (snd t))\<lparr>data := EMPTY_SYMBOL\<rparr>
            else cell fd (fst t) (snd t))"
          by (rule cell_move_cat [OF Cons.prems(3) qb tb])
        with ne Cons.prems(1) have c: "data (cell ?fd' (fst t) (snd t)) = CAT_SYMBOL"
          by (simp split: if_splits)
        have w: "well_shaped ?fd'" using Cons.prems(3) by (rule well_shaped_move_cat)
        from Cons.IH [OF c m w rest] \<open>data (cell fd row col) = CAT_SYMBOL\<close> False
        show ?thesis by (simp add: q)
      qed
    qed
  qed
qed

lemma move_cat_count:
  assumes "well_shaped fd" "in_bounds (cat_row, cat_column)"
    "data (cell fd cat_row cat_column) = CAT_SYMBOL"
  shows "count_list (cells (move_cat cat_row cat_column fd)) CAT_SYMBOL
           = count_list (cells fd) CAT_SYMBOL"
proof -
  let ?fd1 = "set_data fd cat_row cat_column EMPTY_SYMBOL"
  obtain tx ty where t: "move_cat_target cat_row cat_column fd = (tx, ty)"
    by (cases "move_cat_target cat_row cat_column fd")
  from move_cat_target_cases [OF assms(2), of fd]
  have tb: "in_bounds (tx, ty)"
    and tc: "(tx, ty) = (cat_row, cat_column) \<or> data (cell fd tx ty) = EMPTY_SYMBOL"
    by (simp_all add: t)
  have w1: "well_shaped ?fd1" using assms(1) by (rule well_shaped_set_data)
  have e: "data (cell ?fd1 tx ty) = EMPTY_SYMBOL"
    unfolding cell_set_data [OF assms(1) assms(2) tb] using tc by auto
  from count_set_data [OF assms(1) assms(2), of EMPTY_SYMBOL CAT_SYMBOL] assms(3)
  have c1: "count_list (cells ?fd1) CAT_SYMBOL + 1 = count_list (cells fd) CAT_SYMBOL"
    by simp
  from count_set_data [OF w1 tb, of CAT_SYMBOL CAT_SYMBOL] e
  have c2: "count_list (cells (set_data ?fd1 tx ty CAT_SYMBOL)) CAT_SYMBOL
              = count_list (cells ?fd1) CAT_SYMBOL + 1"
    by simp
  from c1 c2 show ?thesis by (simp add: move_cat_def Let_def t)
qed

lemma proceed_cats_scan_count:
  "well_shaped fd \<Longrightarrow> \<forall>p\<in>set ps. in_bounds p \<Longrightarrow>
     count_list (cells (proceed_cats_scan ps fd)) CAT_SYMBOL = count_list (cells fd) CAT_SYMBOL"
proof (induction ps arbitrary: fd)
  case Nil
  then show ?case by simp
next
  case (Cons q ps)
  obtain row col where q: "q = (row, col)" by (cases q)
  from Cons.prems(2) have qb: "in_bounds (row, col)" and rest: "\<forall>p\<in>set ps. in_bounds p"
    by (simp_all add: q)
  show ?case
  proof (cases "data (cell fd row col) = CAT_SYMBOL")
    case False
    with Cons.IH [OF Cons.prems(1) rest] show ?thesis by (simp add: q)
  next
    case True
    have w: "well_shaped (move_cat row col fd)" using Cons.prems(1) by (rule well_shaped_move_cat)
    from Cons.IH [OF w rest] move_cat_count [OF Cons.prems(1) qb True] True show ?thesis
      by (simp add: q Let_def)
  qed
qed

lemma move_cat_calls_append:
  "move_cat_calls (ps @ qs) fd =
     move_cat_calls ps fd
       @ (if scan_returns_early ps fd then [] else move_cat_calls qs (proceed_cats_scan ps fd))"
proof (induction ps arbitrary: fd)
  case Nil
  then show ?case by simp
next
  case (Cons p ps)
  obtain row col where p: "p = (row, col)" by (cases p)
  from Cons.IH [of fd] Cons.IH [of "move_cat row col fd"] show ?case
    by (simp add: p Let_def)
qed

lemma proceed_cats_scan_append:
  "proceed_cats_scan (ps @ qs) fd =
     (if scan_returns_early ps fd then proceed_cats_scan ps fd
      else proceed_cats_scan qs (proceed_cats_scan ps fd))"
proof (induction ps arbitrary: fd)
  case Nil
  then show ?case by simp
next
  case (Cons p ps)
  obtain row col where p: "p = (row, col)" by (cases p)
  from Cons.IH [of fd] Cons.IH [of "move_cat row col fd"] show ?case
    by (simp add: p Let_def)
qed

lemma scan_returns_early_append:
  "scan_returns_early (ps @ qs) fd =
     (scan_returns_early ps fd \<or> scan_returns_early qs (proceed_cats_scan ps fd))"
proof (induction ps arbitrary: fd)
  case Nil
  then show ?case by simp
next
  case (Cons p ps)
  obtain row col where p: "p = (row, col)" by (cases p)
  from Cons.IH [of fd] Cons.IH [of "move_cat row col fd"] show ?case
    by (simp add: p Let_def)
qed

lemma scan_returns_early_iff:
  "scan_returns_early ps fd \<longleftrightarrow>
     move_cat_calls ps fd \<noteq> [] \<and> is_game_over (proceed_cats_scan ps fd)"
proof (induction ps arbitrary: fd)
  case Nil
  then show ?case by simp
next
  case (Cons p ps)
  obtain row col where p: "p = (row, col)" by (cases p)
  show ?case
  proof (cases "data (cell fd row col) = CAT_SYMBOL")
    case False
    with Cons.IH [of fd] show ?thesis by (simp add: p)
  next
    case True
    let ?fd' = "move_cat row col fd"
    show ?thesis
    proof (cases "is_game_over ?fd'")
      case g: True
      with True show ?thesis by (simp add: p)
    next
      case g: False
      show ?thesis
      proof (cases "move_cat_calls ps ?fd' = []")
        case e: True
        then have "proceed_cats_scan ps ?fd' = ?fd'"
          by (simp add: proceed_cats_scan_calls)
        with Cons.IH [of ?fd'] e g True show ?thesis by (simp add: p)
      next
        case e: False
        with Cons.IH [of ?fd'] g True show ?thesis by (simp add: p)
      qed
    qed
  qed
qed

lemma move_cat_calls_head:
  "p \<notin> set rest \<Longrightarrow>
     p \<in> set (move_cat_calls (p # rest) fd) \<longleftrightarrow> data (cell fd (fst p) (snd p)) = CAT_SYMBOL"
proof -
  assume n: "p \<notin> set rest"
  obtain row col where p: "p = (row, col)" by (cases p)
  from n move_cat_calls_subset [of rest fd] have "p \<notin> set (move_cat_calls rest fd)" by blast
  then show ?thesis by (simp add: p Let_def)
qed

lemma call_made_iff:
  assumes "distinct (before @ p # rest)"
  shows "p \<in> set (move_cat_calls (before @ p # rest) fd) \<longleftrightarrow>
           \<not> scan_returns_early before fd
           \<and> data (cell (proceed_cats_scan before fd) (fst p) (snd p)) = CAT_SYMBOL"
proof -
  from assms have nb: "p \<notin> set before" and nr: "p \<notin> set rest" by simp_all
  from nb move_cat_calls_subset [of before fd]
  have n: "p \<notin> set (move_cat_calls before fd)" by blast
  show ?thesis
    unfolding move_cat_calls_append [of before "p # rest" fd]
    using n move_cat_calls_head [OF nr, of "proceed_cats_scan before fd"]
    by simp
qed

lemma cat_stays_unscanned:
  "data (cell fd (fst t) (snd t)) = CAT_SYMBOL \<Longrightarrow> t \<notin> set ps \<Longrightarrow> in_bounds t \<Longrightarrow>
   well_shaped fd \<Longrightarrow> \<forall>p\<in>set ps. in_bounds p \<Longrightarrow>
     data (cell (proceed_cats_scan ps fd) (fst t) (snd t)) = CAT_SYMBOL"
proof (induction ps arbitrary: fd)
  case Nil
  then show ?case by simp
next
  case (Cons q ps)
  obtain row col where q: "q = (row, col)" by (cases q)
  from Cons.prems(5) have qb: "in_bounds (row, col)" and rest: "\<forall>p\<in>set ps. in_bounds p"
    by (simp_all add: q)
  from Cons.prems(3) have tb: "in_bounds (fst t, snd t)" by simp
  from Cons.prems(2) have tq: "t \<noteq> q" and m: "t \<notin> set ps" by simp_all
  show ?case
  proof (cases "data (cell fd row col) = CAT_SYMBOL")
    case False
    from Cons.IH [OF Cons.prems(1) m Cons.prems(3) Cons.prems(4) rest] False show ?thesis
      by (simp add: q)
  next
    case True
    let ?fd' = "move_cat row col fd"
    from tq have ne: "(fst t, snd t) \<noteq> (row, col)" by (simp add: q prod_eq_iff)
    have "cell ?fd' (fst t) (snd t) =
           (if (fst t, snd t) = move_cat_target row col fd
              then (cell fd (fst t) (snd t))\<lparr>data := CAT_SYMBOL\<rparr>
            else if (fst t, snd t) = (row, col)
              then (cell fd (fst t) (snd t))\<lparr>data := EMPTY_SYMBOL\<rparr>
            else cell fd (fst t) (snd t))"
      by (rule cell_move_cat [OF Cons.prems(4) qb tb])
    with ne Cons.prems(1) have c: "data (cell ?fd' (fst t) (snd t)) = CAT_SYMBOL"
      by (simp split: if_splits)
    have w: "well_shaped ?fd'" using Cons.prems(4) by (rule well_shaped_move_cat)
    from Cons.IH [OF c m Cons.prems(3) w rest] c True show ?thesis
      by (simp add: q Let_def)
  qed
qed

lemma scan_order_distinct: "distinct scan_order"
  by code_simp

lemma moved_cat_called_again_iff:
  assumes d: "distinct (before @ (row, col) # mid @ move_cat_target row col fd # rest)"
    and b: "\<forall>p\<in>set (before @ (row, col) # mid @ move_cat_target row col fd # rest). in_bounds p"
    and w: "well_shaped fd"
    and c: "data (cell fd row col) = CAT_SYMBOL"
  shows "move_cat_target row col fd
           \<in> set (move_cat_calls ((row, col) # mid @ move_cat_target row col fd # rest) fd)
         \<longleftrightarrow> \<not> scan_returns_early ((row, col) # mid) fd"
proof -
  let ?t = "move_cat_target row col fd"
  let ?fd2 = "move_cat row col fd"
  from d have d': "distinct (((row, col) # mid) @ ?t # rest)" by simp
  from d have tm: "?t \<notin> set mid" and tq: "?t \<noteq> (row, col)" by auto
  from b have qb: "in_bounds (row, col)" and tb: "in_bounds ?t"
    and mb: "\<forall>p\<in>set mid. in_bounds p" by simp_all
  from tb have tb': "in_bounds (fst ?t, snd ?t)" by simp
  have "cell ?fd2 (fst ?t) (snd ?t) =
           (if (fst ?t, snd ?t) = ?t
              then (cell fd (fst ?t) (snd ?t))\<lparr>data := CAT_SYMBOL\<rparr>
            else if (fst ?t, snd ?t) = (row, col)
              then (cell fd (fst ?t) (snd ?t))\<lparr>data := EMPTY_SYMBOL\<rparr>
            else cell fd (fst ?t) (snd ?t))"
    by (rule cell_move_cat [OF w qb tb'])
  then have c2: "data (cell ?fd2 (fst ?t) (snd ?t)) = CAT_SYMBOL" by simp
  have w2: "well_shaped ?fd2" using w by (rule well_shaped_move_cat)
  have st: "data (cell (proceed_cats_scan mid ?fd2) (fst ?t) (snd ?t)) = CAT_SYMBOL"
    by (rule cat_stays_unscanned [OF c2 tm tb w2 mb])
  have k: "\<not> scan_returns_early ((row, col) # mid) fd \<Longrightarrow>
             proceed_cats_scan ((row, col) # mid) fd = proceed_cats_scan mid ?fd2"
    using c by (simp add: Let_def split: if_splits)
  have eq: "((row, col) # mid) @ ?t # rest = (row, col) # mid @ ?t # rest" by simp
  from call_made_iff [OF d', of fd]
  have e: "?t \<in> set (move_cat_calls ((row, col) # mid @ ?t # rest) fd) \<longleftrightarrow>
           \<not> scan_returns_early ((row, col) # mid) fd
           \<and> data (cell (proceed_cats_scan ((row, col) # mid) fd) (fst ?t) (snd ?t)) = CAT_SYMBOL"
    unfolding eq .
  show ?thesis
  proof (cases "scan_returns_early ((row, col) # mid) fd")
    case True
    with e show ?thesis by blast
  next
    case False
    from k [OF False] st
    have "data (cell (proceed_cats_scan ((row, col) # mid) fd) (fst ?t) (snd ?t)) = CAT_SYMBOL"
      by (simp only:)
    with e False show ?thesis by blast
  qed
qed

text \<open>
  Claim C2, as amended. \<^verbatim>\<open>proceed_cats_turn\<close> scans the field as it stands, not a
  list of the cats taken at the start. The coordinates at which it calls
  \<^verbatim>\<open>move_cat\<close> are within bounds and strictly increasing in row-major order, so each
  coordinate is processed at most once; each call is made at a cell that holds a cat at
  that moment; the field after the turn is the field after these calls in order, and it has
  as many cats as before. Every coordinate of the board has its place in the scan, and
  \<^verbatim>\<open>move_cat\<close> is called at a coordinate exactly when no capture has ended the scan
  before the scan reaches it and the cell holds a cat on the field as it stands at that
  moment. So a cat that is on the board when the scan starts is moved or the turn ends in
  capture, and it is moved at its own cell exactly when no capture ends the scan before the
  scan reaches that cell. At any point of the scan, a cat that moves into a cell the scan
  has not reached yet is moved again in the same turn exactly when no capture ends the scan
  before the scan reaches that cell; in particular it is moved again whenever the scan ends
  without capture. The scan is ended by a capture exactly when it has called
  \<^verbatim>\<open>move_cat\<close> and the field it leaves is one where \<^verbatim>\<open>is_game_over\<close> holds.
\<close>

theorem cats_scan_is_live:
  assumes "well_shaped fd"
  shows "sorted_wrt row_major_less (move_cat_calls scan_order fd)
     \<and> (\<forall>p\<in>set (move_cat_calls scan_order fd). in_bounds p)
     \<and> cats_at_calls (move_cat_calls scan_order fd) fd
     \<and> proceed_cats_turn fd
         = foldl (\<lambda>fd (row, col). move_cat row col fd) fd (move_cat_calls scan_order fd)
     \<and> count_list (cells (proceed_cats_turn fd)) CAT_SYMBOL = count_list (cells fd) CAT_SYMBOL
     \<and> (\<forall>before row col rest fd'.
           scan_order = before @ (row, col) # rest \<and> well_shaped fd'
           \<and> data (cell fd' row col) = CAT_SYMBOL
           \<and> move_cat_target row col fd' \<in> set rest
           \<and> \<not> is_game_over (proceed_cats_scan ((row, col) # rest) fd') \<longrightarrow>
           move_cat_target row col fd' \<in> set (move_cat_calls rest (move_cat row col fd')))
     \<and> (\<forall>p. in_bounds p \<longrightarrow> (\<exists>before rest. scan_order = before @ p # rest))
     \<and> (\<forall>before p rest.
           scan_order = before @ p # rest \<longrightarrow>
           (p \<in> set (move_cat_calls scan_order fd) \<longleftrightarrow>
              \<not> scan_returns_early before fd
              \<and> data (cell (proceed_cats_scan before fd) (fst p) (snd p)) = CAT_SYMBOL))
     \<and> (\<forall>p. in_bounds p \<and> data (cell fd (fst p) (snd p)) = CAT_SYMBOL \<longrightarrow>
           p \<in> set (move_cat_calls scan_order fd) \<or> is_game_over (proceed_cats_turn fd))
     \<and> (\<forall>before p rest.
           scan_order = before @ p # rest \<and> data (cell fd (fst p) (snd p)) = CAT_SYMBOL \<longrightarrow>
           (p \<in> set (move_cat_calls scan_order fd) \<longleftrightarrow> \<not> scan_returns_early before fd))
     \<and> (\<forall>before row col mid rest fd'.
           scan_order = before @ (row, col) # mid @ move_cat_target row col fd' # rest
           \<and> well_shaped fd' \<and> data (cell fd' row col) = CAT_SYMBOL \<longrightarrow>
           (move_cat_target row col fd'
              \<in> set (move_cat_calls ((row, col) # mid @ move_cat_target row col fd' # rest) fd')
            \<longleftrightarrow> \<not> scan_returns_early ((row, col) # mid) fd'))
     \<and> (\<forall>ps fd'. scan_returns_early ps fd' \<longleftrightarrow>
           move_cat_calls ps fd' \<noteq> [] \<and> is_game_over (proceed_cats_scan ps fd'))"
proof (intro conjI)
  show "sorted_wrt row_major_less (move_cat_calls scan_order fd)"
    using scan_order_sorted by (rule move_cat_calls_sorted)
next
  show "\<forall>p\<in>set (move_cat_calls scan_order fd). in_bounds p"
  proof
    fix p assume "p \<in> set (move_cat_calls scan_order fd)"
    with move_cat_calls_subset [of scan_order fd] show "in_bounds p"
      by (auto simp: set_scan_order)
  qed
next
  show "cats_at_calls (move_cat_calls scan_order fd) fd" by (rule cats_at_calls_scan)
next
  show "proceed_cats_turn fd
         = foldl (\<lambda>fd (row, col). move_cat row col fd) fd (move_cat_calls scan_order fd)"
    unfolding proceed_cats_turn_def by (rule proceed_cats_scan_calls)
next
  show "count_list (cells (proceed_cats_turn fd)) CAT_SYMBOL = count_list (cells fd) CAT_SYMBOL"
    unfolding proceed_cats_turn_def
    by (rule proceed_cats_scan_count [OF assms]) (simp add: set_scan_order)
next
  show "\<forall>before row col rest fd'.
           scan_order = before @ (row, col) # rest \<and> well_shaped fd'
           \<and> data (cell fd' row col) = CAT_SYMBOL
           \<and> move_cat_target row col fd' \<in> set rest
           \<and> \<not> is_game_over (proceed_cats_scan ((row, col) # rest) fd') \<longrightarrow>
           move_cat_target row col fd' \<in> set (move_cat_calls rest (move_cat row col fd'))"
  proof (intro allI impI)
    fix before row col rest fd'
    assume a: "scan_order = before @ (row, col) # rest \<and> well_shaped fd'
             \<and> data (cell fd' row col) = CAT_SYMBOL
             \<and> move_cat_target row col fd' \<in> set rest
             \<and> \<not> is_game_over (proceed_cats_scan ((row, col) # rest) fd')"
    let ?t = "move_cat_target row col fd'"
    let ?fd2 = "move_cat row col fd'"
    from a have so: "scan_order = before @ (row, col) # rest" and w: "well_shaped fd'"
      and c: "data (cell fd' row col) = CAT_SYMBOL" and m: "?t \<in> set rest"
      and ng: "\<not> is_game_over (proceed_cats_scan ((row, col) # rest) fd')"
      by blast+
    have "(row, col) \<in> set scan_order" by (simp add: so)
    then have qb: "in_bounds (row, col)" by (simp add: set_scan_order)
    have rb: "\<forall>p\<in>set rest. in_bounds p"
    proof
      fix p assume "p \<in> set rest"
      then have "p \<in> set scan_order" by (simp add: so)
      then show "in_bounds p" by (simp add: set_scan_order)
    qed
    from m rb have tb: "in_bounds (fst ?t, snd ?t)" by simp
    from ng c have n1: "\<not> is_game_over ?fd2"
      and n2: "\<not> is_game_over (proceed_cats_scan rest ?fd2)"
      by (auto simp: Let_def split: if_splits)
    have "cell ?fd2 (fst ?t) (snd ?t) =
             (if (fst ?t, snd ?t) = ?t
                then (cell fd' (fst ?t) (snd ?t))\<lparr>data := CAT_SYMBOL\<rparr>
              else if (fst ?t, snd ?t) = (row, col)
                then (cell fd' (fst ?t) (snd ?t))\<lparr>data := EMPTY_SYMBOL\<rparr>
              else cell fd' (fst ?t) (snd ?t))"
      by (rule cell_move_cat [OF w qb tb])
    then have d: "data (cell ?fd2 (fst ?t) (snd ?t)) = CAT_SYMBOL" by simp
    have w2: "well_shaped ?fd2" using w by (rule well_shaped_move_cat)
    from cat_found_later [OF d m w2 rb] n2
    show "?t \<in> set (move_cat_calls rest ?fd2)" by simp
  qed
next
  show "\<forall>p. in_bounds p \<longrightarrow> (\<exists>before rest. scan_order = before @ p # rest)"
    by (simp add: set_scan_order [symmetric] split_list)
next
  show "\<forall>before p rest.
           scan_order = before @ p # rest \<longrightarrow>
           (p \<in> set (move_cat_calls scan_order fd) \<longleftrightarrow>
              \<not> scan_returns_early before fd
              \<and> data (cell (proceed_cats_scan before fd) (fst p) (snd p)) = CAT_SYMBOL)"
  proof (intro allI impI)
    fix before p rest
    assume so: "scan_order = before @ p # rest"
    from scan_order_distinct have d: "distinct (before @ p # rest)" unfolding so .
    from call_made_iff [OF d, of fd]
    show "p \<in> set (move_cat_calls scan_order fd) \<longleftrightarrow>
              \<not> scan_returns_early before fd
              \<and> data (cell (proceed_cats_scan before fd) (fst p) (snd p)) = CAT_SYMBOL"
      unfolding so .
  qed
next
  show "\<forall>p. in_bounds p \<and> data (cell fd (fst p) (snd p)) = CAT_SYMBOL \<longrightarrow>
           p \<in> set (move_cat_calls scan_order fd) \<or> is_game_over (proceed_cats_turn fd)"
  proof (intro allI impI)
    fix p
    assume a: "in_bounds p \<and> data (cell fd (fst p) (snd p)) = CAT_SYMBOL"
    then have c: "data (cell fd (fst p) (snd p)) = CAT_SYMBOL"
      and m: "p \<in> set scan_order" by (simp_all add: set_scan_order)
    have b: "\<forall>q\<in>set scan_order. in_bounds q" by (simp add: set_scan_order)
    from cat_found_later [OF c m assms b]
    show "p \<in> set (move_cat_calls scan_order fd) \<or> is_game_over (proceed_cats_turn fd)"
      unfolding proceed_cats_turn_def .
  qed
next
  show "\<forall>before p rest.
           scan_order = before @ p # rest \<and> data (cell fd (fst p) (snd p)) = CAT_SYMBOL \<longrightarrow>
           (p \<in> set (move_cat_calls scan_order fd) \<longleftrightarrow> \<not> scan_returns_early before fd)"
  proof (intro allI impI)
    fix before p rest
    assume a: "scan_order = before @ p # rest \<and> data (cell fd (fst p) (snd p)) = CAT_SYMBOL"
    then have so: "scan_order = before @ p # rest"
      and c: "data (cell fd (fst p) (snd p)) = CAT_SYMBOL" by blast+
    from scan_order_distinct have d: "distinct (before @ p # rest)" unfolding so .
    then have nb: "p \<notin> set before" by simp
    have "p \<in> set scan_order" by (simp add: so)
    then have pb: "in_bounds p" by (simp add: set_scan_order)
    have bb: "\<forall>q\<in>set before. in_bounds q"
    proof
      fix q assume "q \<in> set before"
      then have "q \<in> set scan_order" by (simp add: so)
      then show "in_bounds q" by (simp add: set_scan_order)
    qed
    have st: "data (cell (proceed_cats_scan before fd) (fst p) (snd p)) = CAT_SYMBOL"
      by (rule cat_stays_unscanned [OF c nb pb assms bb])
    from call_made_iff [OF d, of fd]
    have "p \<in> set (move_cat_calls scan_order fd) \<longleftrightarrow>
              \<not> scan_returns_early before fd
              \<and> data (cell (proceed_cats_scan before fd) (fst p) (snd p)) = CAT_SYMBOL"
      unfolding so .
    with st show "p \<in> set (move_cat_calls scan_order fd) \<longleftrightarrow> \<not> scan_returns_early before fd"
      by blast
  qed
next
  show "\<forall>before row col mid rest fd'.
           scan_order = before @ (row, col) # mid @ move_cat_target row col fd' # rest
           \<and> well_shaped fd' \<and> data (cell fd' row col) = CAT_SYMBOL \<longrightarrow>
           (move_cat_target row col fd'
              \<in> set (move_cat_calls ((row, col) # mid @ move_cat_target row col fd' # rest) fd')
            \<longleftrightarrow> \<not> scan_returns_early ((row, col) # mid) fd')"
  proof (intro allI impI)
    fix before row col mid rest fd'
    assume a: "scan_order = before @ (row, col) # mid @ move_cat_target row col fd' # rest
           \<and> well_shaped fd' \<and> data (cell fd' row col) = CAT_SYMBOL"
    then have so: "scan_order = before @ (row, col) # mid @ move_cat_target row col fd' # rest"
      and w: "well_shaped fd'" and c: "data (cell fd' row col) = CAT_SYMBOL" by blast+
    from scan_order_distinct
    have d: "distinct (before @ (row, col) # mid @ move_cat_target row col fd' # rest)"
      unfolding so [symmetric] .
    have b: "\<forall>p\<in>set (before @ (row, col) # mid @ move_cat_target row col fd' # rest).
               in_bounds p"
      unfolding so [symmetric] by (simp add: set_scan_order)
    show "move_cat_target row col fd'
              \<in> set (move_cat_calls ((row, col) # mid @ move_cat_target row col fd' # rest) fd')
            \<longleftrightarrow> \<not> scan_returns_early ((row, col) # mid) fd'"
      by (rule moved_cat_called_again_iff [OF d b w c])
  qed
next
  show "\<forall>ps fd'. scan_returns_early ps fd' \<longleftrightarrow>
           move_cat_calls ps fd' \<noteq> [] \<and> is_game_over (proceed_cats_scan ps fd')"
    by (intro allI) (rule scan_returns_early_iff)
qed

lemma chased_field_example:
  "well_shaped chased_field
   \<and> scan_order = [] @ (0, 0) # tl scan_order
   \<and> data (cell chased_field 0 0) = CAT_SYMBOL
   \<and> move_cat_target 0 0 chased_field = (0, 1)
   \<and> (0, 1) \<in> set (tl scan_order)
   \<and> \<not> is_game_over (proceed_cats_scan ((0, 0) # tl scan_order) chased_field)"
  by code_simp

lemma chased_field_start:
  "in_bounds (0 :: int, 0 :: int)
   \<and> data (cell chased_field (fst (0 :: int, 0 :: int)) (snd (0 :: int, 0 :: int))) = CAT_SYMBOL
   \<and> \<not> is_game_over (proceed_cats_turn chased_field)"
  by code_simp

text \<open>
  Claim C2, the amended statement at the example field: the cat at (0, 0) when the scan
  starts is moved, and, moved from (0, 0) to (0, 1), it is moved again by the rest of the
  scan.
\<close>

theorem cats_scan_is_live_witness:
  "(0, 1) \<in> set (move_cat_calls (tl scan_order) (move_cat 0 0 chased_field))
   \<and> (0, 0) \<in> set (move_cat_calls scan_order chased_field)
   \<and> sorted_wrt row_major_less (move_cat_calls scan_order chased_field)
   \<and> count_list (cells (proceed_cats_turn chased_field)) CAT_SYMBOL
       = count_list (cells chased_field) CAT_SYMBOL"
proof -
  from chased_field_example have w: "well_shaped chased_field"
    and e1: "scan_order = [] @ (0, 0) # tl scan_order"
    and e2: "data (cell chased_field 0 0) = CAT_SYMBOL"
    and e3: "move_cat_target 0 0 chased_field = (0, 1)"
    and e4: "(0, 1) \<in> set (tl scan_order)"
    and e5: "\<not> is_game_over (proceed_cats_scan ((0, 0) # tl scan_order) chased_field)"
    by blast+
  from chased_field_start have s1: "in_bounds (0 :: int, 0 :: int)"
    and s2: "data (cell chased_field (fst (0 :: int, 0 :: int)) (snd (0 :: int, 0 :: int)))
               = CAT_SYMBOL"
    and s3: "\<not> is_game_over (proceed_cats_turn chased_field)"
    by blast+
  from e4 have e4': "move_cat_target 0 0 chased_field \<in> set (tl scan_order)"
    unfolding e3 .
  note t = cats_scan_is_live [OF w]
  note srt = t [THEN conjunct1]
  note cnt = t [THEN conjunct2, THEN conjunct2, THEN conjunct2, THEN conjunct2, THEN conjunct1]
  note again = t [THEN conjunct2, THEN conjunct2, THEN conjunct2, THEN conjunct2, THEN conjunct2, THEN conjunct1]
  note start = t [THEN conjunct2, THEN conjunct2, THEN conjunct2, THEN conjunct2, THEN conjunct2, THEN conjunct2, THEN conjunct2, THEN conjunct2, THEN conjunct1]
  from again have
    "scan_order = [] @ (0, 0) # tl scan_order \<and> well_shaped chased_field
       \<and> data (cell chased_field 0 0) = CAT_SYMBOL
       \<and> move_cat_target 0 0 chased_field \<in> set (tl scan_order)
       \<and> \<not> is_game_over (proceed_cats_scan ((0, 0) # tl scan_order) chased_field) \<longrightarrow>
     move_cat_target 0 0 chased_field
       \<in> set (move_cat_calls (tl scan_order) (move_cat 0 0 chased_field))"
    by blast
  with e1 w e2 e4' e5
  have "move_cat_target 0 0 chased_field
          \<in> set (move_cat_calls (tl scan_order) (move_cat 0 0 chased_field))"
    by blast
  then have a: "(0, 1) \<in> set (move_cat_calls (tl scan_order) (move_cat 0 0 chased_field))"
    unfolding e3 .
  from start have
    "in_bounds (0 :: int, 0 :: int)
       \<and> data (cell chased_field (fst (0 :: int, 0 :: int)) (snd (0 :: int, 0 :: int)))
           = CAT_SYMBOL \<longrightarrow>
     (0, 0) \<in> set (move_cat_calls scan_order chased_field)
       \<or> is_game_over (proceed_cats_turn chased_field)"
    by blast
  with s1 s2 s3 have b: "(0, 0) \<in> set (move_cat_calls scan_order chased_field)" by blast
  from a b srt cnt show ?thesis by blast
qed

text \<open>
  Claim C2 as stated fails: the example field has one cat, and one turn calls
  \<^verbatim>\<open>move_cat\<close> three times, at (0, 0), (0, 1) and (1, 1); the cat that moved right
  into the cell (0, 1), not scanned yet, is moved a second time, down to (1, 1).
\<close>

theorem one_cat_moved_twice:
  "count_list (cells chased_field) CAT_SYMBOL = 1
   \<and> move_cat_calls scan_order chased_field = [(0, 0), (0, 1), (1, 1)]
   \<and> move_cat_target 0 0 chased_field = (0, 1)
   \<and> move_cat_target 0 1 (move_cat 0 0 chased_field) = (1, 1)
   \<and> \<not> is_game_over (proceed_cats_turn chased_field)"
  by code_simp

end
